theory Spec2Isabelle
  imports Main "HOL-Library.Sublist"
begin

section \<open>The diff parser of \<^verbatim>\<open>lib/git/diff.py\<close>\<close>

text \<open>
  The source builds one \<^verbatim>\<open>Diff\<close> object per file segment of the text that
  \<^verbatim>\<open>git diff\<close> prints. The text is cut at the token \<^verbatim>\<open>\ndiff --git\<close>, every
  piece but the first is matched against the compiled pattern \<^verbatim>\<open>diff_header\<close>, and
  the captured groups become the arguments of the constructor.

  Strings are Python 2 byte strings, hence \<^typ>\<open>string\<close>. Exceptions are values of
  the type \<open>error\<close>.
\<close>

subsection \<open>Errors\<close>

datatype error =
  AttributeError  \<comment> \<open>\<^verbatim>\<open>header.groups()\<close> when \<^verbatim>\<open>header\<close> is \<^verbatim>\<open>None\<close>\<close>
| ValueError      \<comment> \<open>\<^verbatim>\<open>str.split\<close> with an empty separator\<close>

subsection \<open>Character classes of the pattern\<close>

text \<open>
  The pattern is compiled without \<^verbatim>\<open>re.LOCALE\<close> or \<^verbatim>\<open>re.UNICODE\<close>, on byte strings:
  \<^verbatim>\<open>\s\<close> is \<^verbatim>\<open>[ \t\n\r\f\v]\<close>, \<^verbatim>\<open>\d\<close> is \<^verbatim>\<open>[0-9]\<close>, and without \<^verbatim>\<open>re.DOTALL\<close> the dot
  is every character but the newline.
\<close>

definition is_space :: "char \<Rightarrow> bool" where
  "is_space c = (c \<in> {CHR '' '', CHR 0x09, CHR 0x0A, CHR 0x0D, CHR 0x0C, CHR 0x0B})"

definition non_space :: "char \<Rightarrow> bool" where  \<comment> \<open>\<^verbatim>\<open>\S\<close>\<close>
  "non_space c = (\<not> is_space c)"

definition digit :: "char \<Rightarrow> bool" where  \<comment> \<open>\<^verbatim>\<open>\d\<close>\<close>
  "digit c = (c \<in> set ''0123456789'')"

definition hexdigit :: "char \<Rightarrow> bool" where  \<comment> \<open>\<^verbatim>\<open>[0-9A-Fa-f]\<close>\<close>
  "hexdigit c = (c \<in> set ''0123456789ABCDEFabcdef'')"

definition dot :: "char \<Rightarrow> bool" where  \<comment> \<open>\<^verbatim>\<open>.\<close>\<close>
  "dot c = (c \<noteq> CHR 0x0A)"

subsection \<open>Backtracking matcher for the constructs the pattern uses\<close>

text \<open>
  The named groups of \<^verbatim>\<open>diff_header\<close>, in the order \<^verbatim>\<open>header.groups()\<close> lists them.
\<close>

datatype grp =
  G_a_path | G_b_path | G_similarity_index | G_rename_from | G_rename_to
| G_old_mode | G_new_mode | G_new_file_mode | G_deleted_file_mode
| G_a_commit | G_b_commit | G_b_mode

text \<open>
  The syntax of the pattern: a literal string, \<^verbatim>\<open>c+\<close> for a character class \<open>c\<close>
  (greedy), \<^verbatim>\<open>^\<close> and \<^verbatim>\<open>$\<close> under \<^verbatim>\<open>re.MULTILINE\<close>, concatenation, \<^verbatim>\<open>a|b\<close>, the
  greedy \<^verbatim>\<open>(?:a)?\<close> and a named group.
\<close>

datatype rx =
  Lit string
| Plus "char \<Rightarrow> bool"
| Bol
| Eol
| Seq rx rx
| Alt rx rx
| Opt rx
| Grp grp rx

text \<open>
  A state of the matcher is the position in the subject string and what the groups
  hold so far; the match object the source calls \<^verbatim>\<open>header\<close> is the final state:
  \<^verbatim>\<open>header.end()\<close> is \<open>pos\<close>, \<^verbatim>\<open>header.groups()\<close> is \<open>groups\<close>.
\<close>

record mstate =
  pos :: nat
  groups :: "grp \<Rightarrow> string option"

text \<open>
  \<open>try_down f n\<close> is the first success among \<open>f n\<close>, \<open>f (n - 1)\<close>, ..., \<open>f 1\<close>: a
  greedy \<^verbatim>\<open>+\<close> takes the longest run first and gives characters back one at a time.
\<close>

fun try_down :: "(nat \<Rightarrow> 'a option) \<Rightarrow> nat \<Rightarrow> 'a option" where
  "try_down f 0 = None"
| "try_down f (Suc n) = (case f (Suc n) of Some r \<Rightarrow> Some r | None \<Rightarrow> try_down f n)"

text \<open>
  \<open>rmatch s r st k\<close> matches \<open>r\<close> in the subject \<open>s\<close> from the state \<open>st\<close> and hands
  every way of matching it, in the order of priority of \<^verbatim>\<open>re\<close>, to the continuation
  \<open>k\<close>, which matches the rest of the pattern; the first success is the result.
\<close>

fun rmatch :: "string \<Rightarrow> rx \<Rightarrow> mstate \<Rightarrow> (mstate \<Rightarrow> 'a option) \<Rightarrow> 'a option" where
  "rmatch s (Lit w) st k =
     (if prefix w (drop (pos st) s) then k (st\<lparr>pos := pos st + length w\<rparr>) else None)"
| "rmatch s (Plus P) st k =
     try_down (\<lambda>n. k (st\<lparr>pos := pos st + n\<rparr>)) (length (takeWhile P (drop (pos st) s)))"
| "rmatch s Bol st k =
     (if pos st = 0 \<or> s ! (pos st - 1) = CHR 0x0A then k st else None)"
| "rmatch s Eol st k =
     (if pos st = length s \<or> s ! pos st = CHR 0x0A then k st else None)"
| "rmatch s (Seq a b) st k = rmatch s a st (\<lambda>st'. rmatch s b st' k)"
| "rmatch s (Alt a b) st k =
     (case rmatch s a st k of Some r \<Rightarrow> Some r | None \<Rightarrow> rmatch s b st k)"
| "rmatch s (Opt a) st k =
     (case rmatch s a st k of Some r \<Rightarrow> Some r | None \<Rightarrow> k st)"
| "rmatch s (Grp g a) st k =
     rmatch s a st
       (\<lambda>st'. k (st'\<lparr>groups := (groups st')(g \<mapsto> take (pos st' - pos st) (drop (pos st) s))\<rparr>))"

fun seqs :: "rx list \<Rightarrow> rx" where
  "seqs [] = Lit []"
| "seqs [r] = r"
| "seqs (r # rs) = Seq r (seqs rs)"

definition eol :: rx where  \<comment> \<open>\<^verbatim>\<open>(?:\n|$)\<close>\<close>
  "eol = Alt (Lit [CHR 0x0A]) Eol"

subsection \<open>The pattern \<^verbatim>\<open>diff_header\<close>\<close>

text \<open>
  Under \<^verbatim>\<open>re.VERBOSE\<close> the first line of the pattern, \<^verbatim>\<open>#^diff[ ]--git\<close>, is a
  comment and the layout is ignored. The mandatory path clause comes first; each of the
  five clauses after it is wrapped in \<^verbatim>\<open>(?: ... )?\<close>.
\<close>

definition mandatory_rx :: "rx list" where
  "mandatory_rx =
     [Lit '' a/'', Grp G_a_path (Plus non_space),
      Lit '' b/'', Grp G_b_path (Plus non_space), Lit [CHR 0x0A]]"

definition rename_clause :: rx where
  "rename_clause = seqs
     [Bol, Lit ''similarity index '', Grp G_similarity_index (Plus digit), Lit (''%'' @ [CHR 0x0A]),
      Bol, Lit ''rename from '', Grp G_rename_from (Plus non_space), Lit [CHR 0x0A],
      Bol, Lit ''rename to '', Grp G_rename_to (Plus non_space), eol]"

definition mode_clause :: rx where
  "mode_clause = seqs
     [Bol, Lit ''old mode '', Grp G_old_mode (Plus digit), Lit [CHR 0x0A],
      Bol, Lit ''new mode '', Grp G_new_mode (Plus digit), eol]"

definition new_file_clause :: rx where
  "new_file_clause = seqs
     [Bol, Lit ''new file mode '', Grp G_new_file_mode (Plus dot), eol]"

definition deleted_file_clause :: rx where
  "deleted_file_clause = seqs
     [Bol, Lit ''deleted file mode '', Grp G_deleted_file_mode (Plus dot), eol]"

definition index_clause :: rx where
  "index_clause = seqs
     [Bol, Lit ''index '', Grp G_a_commit (Plus hexdigit),
      Lit ''..'', Grp G_b_commit (Plus hexdigit),
      Opt (Lit '' ''), Opt (Grp G_b_mode (Plus dot)), eol]"

definition diff_header_rx :: rx where
  "diff_header_rx =
     seqs (mandatory_rx @
       [Opt rename_clause, Opt mode_clause, Opt new_file_clause, Opt deleted_file_clause,
        Opt index_clause])"

text \<open>
  \<^verbatim>\<open>re.compile(...).match\<close>: the match starts at position 0 of the subject, with no
  group set, and succeeds as soon as the pattern is through.
\<close>

definition start :: mstate where
  "start = \<lparr>pos = 0, groups = \<lambda>_. None\<rparr>"

definition diff_header :: "string \<Rightarrow> mstate option" where
  "diff_header s = rmatch s diff_header_rx start Some"

subsection \<open>\<^verbatim>\<open>str.split\<close>\<close>

text \<open>
  \<open>split_pieces s sep\<close> scans \<open>s\<close> from the left and cuts at every occurrence of the
  non-empty \<open>sep\<close>, resuming after it; \<^verbatim>\<open>str.split\<close> raises \<^verbatim>\<open>ValueError\<close> for the
  empty separator.
\<close>

function split_pieces :: "string \<Rightarrow> string \<Rightarrow> string list" where
  "split_pieces [] sep = [[]]"
| "split_pieces (c # cs) sep =
     (if sep \<noteq> [] \<and> prefix sep (c # cs)
      then [] # split_pieces (drop (length sep) (c # cs)) sep
      else (case split_pieces cs sep of
              [] \<Rightarrow> [[c]]
            | p # ps \<Rightarrow> (c # p) # ps))"
  by pat_completeness auto
termination
  by (relation "measure (\<lambda>(s, sep). length s)") auto

definition split_str :: "string \<Rightarrow> string \<Rightarrow> error + string list" where
  "split_str s sep = (if sep = [] then Inl ValueError else Inr (split_pieces s sep))"

subsection \<open>The class \<^verbatim>\<open>Diff\<close> and the loop over the segments\<close>

text \<open>
  Modelled from the spec: of the body of \<^verbatim>\<open>Diff.__init__\<close> the source file has the three
  assignments to \<^verbatim>\<open>rename_from\<close>, \<^verbatim>\<open>rename_to\<close> and \<^verbatim>\<open>renamed\<close>; the other
  attributes of a record hold the arguments of the constructor, as the data model of the
  specification describes them. A group that did not take part in the match is
  \<^verbatim>\<open>None\<close>.
\<close>

record 'r Diff =
  repo :: 'r
  a_path :: "string option"
  b_path :: "string option"
  a_commit :: "string option"
  b_commit :: "string option"
  a_mode :: "string option"
  b_mode :: "string option"
  new_file :: bool
  deleted_file :: bool
  rename_from :: "string option"
  rename_to :: "string option"
  renamed :: bool
  diff :: string

definition Diff_init ::
  "'r \<Rightarrow> string option \<Rightarrow> string option \<Rightarrow> string option \<Rightarrow> string option \<Rightarrow>
   string option \<Rightarrow> string option \<Rightarrow> bool \<Rightarrow> bool \<Rightarrow> string option \<Rightarrow> string option \<Rightarrow>
   string \<Rightarrow> 'r Diff" where
  "Diff_init repo' a_path' b_path' a_commit' b_commit' a_mode' b_mode' new_file' deleted_file'
       rename_from' rename_to' diff' =
     \<lparr>repo = repo', a_path = a_path', b_path = b_path', a_commit = a_commit',
      b_commit = b_commit', a_mode = a_mode', b_mode = b_mode', new_file = new_file',
      deleted_file = deleted_file', rename_from = rename_from', rename_to = rename_to',
      renamed = (rename_from' \<noteq> rename_to'), diff = diff'\<rparr>"

text \<open>Python's \<^verbatim>\<open>bool(x)\<close> and \<^verbatim>\<open>x or y\<close> on values that are \<^verbatim>\<open>None\<close> or a string.\<close>

definition truthy :: "string option \<Rightarrow> bool" where
  "truthy x = (case x of None \<Rightarrow> False | Some v \<Rightarrow> v \<noteq> [])"

definition py_or :: "string option \<Rightarrow> string option \<Rightarrow> string option" where
  "py_or x y = (if truthy x then x else y)"

text \<open>The body of the loop once \<^verbatim>\<open>header\<close> is a match object.\<close>

definition make_diff :: "'r \<Rightarrow> string \<Rightarrow> mstate \<Rightarrow> 'r Diff" where
  "make_diff repo' d header =
     (let a_path' = groups header G_a_path; b_path' = groups header G_b_path;
          rename_from' = groups header G_rename_from; rename_to' = groups header G_rename_to;
          old_mode = groups header G_old_mode; new_mode = groups header G_new_mode;
          new_file_mode = groups header G_new_file_mode;
          deleted_file_mode = groups header G_deleted_file_mode;
          a_commit' = groups header G_a_commit; b_commit' = groups header G_b_commit;
          b_mode' = groups header G_b_mode;
          new_file' = truthy new_file_mode; deleted_file' = truthy deleted_file_mode
      in Diff_init repo' a_path' b_path' a_commit' b_commit'
           (py_or old_mode deleted_file_mode) (py_or (py_or new_mode new_file_mode) b_mode')
           new_file' deleted_file' rename_from' rename_to' (drop (pos header) d))"

text \<open>
  The \<^verbatim>\<open>for\<close> loop, with the list \<^verbatim>\<open>diffs\<close> as accumulator: a segment the pattern does
  not match makes \<^verbatim>\<open>header\<close> \<^verbatim>\<open>None\<close>, and \<^verbatim>\<open>header.groups()\<close> raises.
\<close>

fun parse_loop :: "'r \<Rightarrow> string list \<Rightarrow> 'r Diff list \<Rightarrow> error + 'r Diff list" where
  "parse_loop repo' [] diffs = Inr diffs"
| "parse_loop repo' (d # ds) diffs =
     (case diff_header d of
        None \<Rightarrow> Inl AttributeError
      | Some header \<Rightarrow> parse_loop repo' ds (diffs @ [make_diff repo' d header]))"

text \<open>
  The function around the loop, which the specification calls \<open>parse\<close>: the source file
  has the pattern and the loop; \<^verbatim>\<open>diffs\<close> is empty before the loop and is what the
  function returns.
\<close>

definition delim :: string where  \<comment> \<open>\<^verbatim>\<open>'\ndiff --git'\<close>\<close>
  "delim = CHR 0x0A # ''diff --git''"

definition parse :: "'r \<Rightarrow> string \<Rightarrow> error + 'r Diff list" where
  "parse repo' text =
     (case split_str (CHR 0x0A # text) delim of
        Inl e \<Rightarrow> Inl e
      | Inr pieces \<Rightarrow> parse_loop repo' (drop 1 pieces) [])"

subsection \<open>Notions the properties are stated with\<close>

text \<open>The file segments of a text: what the loop of \<open>parse\<close> runs over.\<close>

definition segments :: "string \<Rightarrow> string list" where
  "segments text = drop 1 (split_pieces (CHR 0x0A # text) delim)"

text \<open>The number of positions of \<open>s\<close> at which \<open>sep\<close> occurs.\<close>

fun occurrences :: "string \<Rightarrow> string \<Rightarrow> nat" where
  "occurrences sep [] = 0"
| "occurrences sep (c # cs) = (if prefix sep (c # cs) then 1 else 0) + occurrences sep cs"

text \<open>The pieces, joined again by the separator, are the string that was split.\<close>

fun join :: "string \<Rightarrow> string list \<Rightarrow> string" where
  "join sep [] = []"
| "join sep [p] = p"
| "join sep (p # ps) = p @ sep @ join sep ps"

text \<open>
  The mandatory path clause matches a segment: the first five items of the pattern, on
  their own, match at its start.
\<close>

definition path_clause :: "string \<Rightarrow> bool" where
  "path_clause d = (rmatch d (seqs mandatory_rx) start Some \<noteq> None)"

text \<open>
  An optional clause, on its own, at the state the clauses before it have reached: the
  state after the clause where it matches, the same state where it does not.
\<close>

definition clause_step :: "string \<Rightarrow> rx \<Rightarrow> mstate \<Rightarrow> mstate" where
  "clause_step d r st = (case rmatch d r st Some of Some st' \<Rightarrow> st' | None \<Rightarrow> st)"

subsection \<open>The pattern read without backtracking\<close>

text \<open>
  \<open>det\<close> reads a pattern from left to right and never comes back on a choice: a
  \<^verbatim>\<open>+\<close> takes the longest run, an alternative or an optional part is decided where it
  stands. For \<^verbatim>\<open>diff_header\<close> this is what the backtracking matcher computes
  (\<open>diff_header_det\<close> below).
\<close>

fun det :: "string \<Rightarrow> rx \<Rightarrow> mstate \<Rightarrow> mstate option" where
  "det s (Lit w) st =
     (if prefix w (drop (pos st) s) then Some (st\<lparr>pos := pos st + length w\<rparr>) else None)"
| "det s (Plus P) st =
     (let n = length (takeWhile P (drop (pos st) s))
      in if n = 0 then None else Some (st\<lparr>pos := pos st + n\<rparr>))"
| "det s Bol st =
     (if pos st = 0 \<or> s ! (pos st - 1) = CHR 0x0A then Some st else None)"
| "det s Eol st =
     (if pos st = length s \<or> s ! pos st = CHR 0x0A then Some st else None)"
| "det s (Seq a b) st = (case det s a st of None \<Rightarrow> None | Some st' \<Rightarrow> det s b st')"
| "det s (Alt a b) st = (case det s a st of Some st' \<Rightarrow> Some st' | None \<Rightarrow> det s b st)"
| "det s (Opt a) st = (case det s a st of Some st' \<Rightarrow> Some st' | None \<Rightarrow> Some st)"
| "det s (Grp g a) st =
     (case det s a st of
        None \<Rightarrow> None
      | Some st' \<Rightarrow>
          Some (st'\<lparr>groups := (groups st')(g \<mapsto> take (pos st' - pos st) (drop (pos st) s))\<rparr>))"

definition valid :: "string \<Rightarrow> mstate \<Rightarrow> bool" where
  "valid s st = (pos st \<le> length s)"

definition agree :: "string \<Rightarrow> rx \<Rightarrow> (mstate \<Rightarrow> mstate option) \<Rightarrow> bool" where
  "agree s r k =
     (\<forall>st. valid s st \<longrightarrow>
        rmatch s r st k = (case det s r st of None \<Rightarrow> None | Some st' \<Rightarrow> k st'))"

definition total :: "string \<Rightarrow> (mstate \<Rightarrow> mstate option) \<Rightarrow> bool" where
  "total s k = (\<forall>st. valid s st \<longrightarrow> k st \<noteq> None)"

definition rejects :: "(char \<Rightarrow> bool) \<Rightarrow> string \<Rightarrow> (mstate \<Rightarrow> mstate option) \<Rightarrow> bool" where
  "rejects P s k = (\<forall>st. pos st < length s \<longrightarrow> P (s ! pos st) \<longrightarrow> k st = None)"


text \<open>
  The groups a pattern can set, whether every group of a pattern is a \<^verbatim>\<open>+\<close> over a
  character class (so that it never captures the empty string), and the states in which
  the matcher stands at the end of the subject or right after a newline.
\<close>

fun grps :: "rx \<Rightarrow> grp set" where
  "grps (Grp g r) = insert g (grps r)"
| "grps (Seq a b) = grps a \<union> grps b"
| "grps (Alt a b) = grps a \<union> grps b"
| "grps (Opt a) = grps a"
| "grps _ = {}"

fun plus_groups :: "rx \<Rightarrow> bool" where
  "plus_groups (Grp g (Plus P)) = True"
| "plus_groups (Grp g r) = False"
| "plus_groups (Seq a b) = (plus_groups a \<and> plus_groups b)"
| "plus_groups (Alt a b) = (plus_groups a \<and> plus_groups b)"
| "plus_groups (Opt a) = plus_groups a"
| "plus_groups _ = True"

definition line_end :: "string \<Rightarrow> mstate \<Rightarrow> bool" where
  "line_end d st =
     (drop (pos st) d = [] \<or> (0 < pos st \<and> pos st \<le> length d \<and> d ! (pos st - 1) = CHR 0x0A))"

subsection \<open>Example texts\<close>

text \<open>A rename, as \<^verbatim>\<open>git diff -M\<close> prints it, and the record it gives.\<close>

definition ex_rename :: string where
  "ex_rename =
     ''diff --git a/old.txt b/new.txt'' @ [CHR 0x0A] @
     ''similarity index 100%'' @ [CHR 0x0A] @
     ''rename from old.txt'' @ [CHR 0x0A] @
     ''rename to new.txt'' @ [CHR 0x0A]"

definition ex_rename_record :: "unit Diff" where
  "ex_rename_record =
     \<lparr>repo = (), a_path = Some ''old.txt'', b_path = Some ''new.txt'', a_commit = None,
      b_commit = None, a_mode = None, b_mode = None, new_file = False, deleted_file = False,
      rename_from = Some ''old.txt'', rename_to = Some ''new.txt'', renamed = True, diff = []\<rparr>"

text \<open>A header line cut before its newline, and a text of two files.\<close>

definition ex_truncated :: string where
  "ex_truncated = ''diff --git a/x b/y''"

definition ex_two :: string where
  "ex_two =
     ''diff --git a/x.txt b/x.txt'' @ [CHR 0x0A] @
     ''index a1b2c3..d4e5f6 100644'' @ [CHR 0x0A] @
     ''--- a/x.txt'' @ [CHR 0x0A] @
     ''+++ b/x.txt'' @ [CHR 0x0A] @
     ''diff --git a/y.txt b/y.txt'' @ [CHR 0x0A] @
     ''new file mode 100644'' @ [CHR 0x0A] @
     ''index 0000000..e69de29'' @ [CHR 0x0A]"

text \<open>A well-formed segment followed by a truncated one.\<close>

definition ex_bad_second :: string where
  "ex_bad_second =
     ''diff --git a/x.txt b/x.txt'' @ [CHR 0x0A] @
     ''index a1b2c3..d4e5f6 100644'' @ [CHR 0x0A] @
     ''diff --git a/y.txt''"

text \<open>The records of \<open>ex_two\<close>.\<close>

definition ex_two_records :: "unit Diff list" where
  "ex_two_records =
     [\<lparr>repo = (), a_path = Some ''x.txt'', b_path = Some ''x.txt'', a_commit = Some ''a1b2c3'',
       b_commit = Some ''d4e5f6'', a_mode = None, b_mode = Some ''100644'', new_file = False,
       deleted_file = False, rename_from = None, rename_to = None, renamed = False,
       diff = ''--- a/x.txt'' @ [CHR 0x0A] @ ''+++ b/x.txt''\<rparr>,
      \<lparr>repo = (), a_path = Some ''y.txt'', b_path = Some ''y.txt'', a_commit = Some ''0000000'',
       b_commit = Some ''e69de29'', a_mode = None, b_mode = Some ''100644'', new_file = True,
       deleted_file = False, rename_from = None, rename_to = None, renamed = False,
       diff = []\<rparr>]"

text \<open>A segment whose only mode is the one behind the blob ids on the index line.\<close>

definition ex_index_only :: string where
  "ex_index_only =
     ''diff --git a/x.txt b/x.txt'' @ [CHR 0x0A] @
     ''index a1b2c3..d4e5f6 100644'' @ [CHR 0x0A]"

text \<open>
  A header with a \<^verbatim>\<open>new file mode\<close> line and a \<^verbatim>\<open>deleted file mode\<close> line, which the
  pattern accepts, and its record.
\<close>

definition ex_new_and_deleted :: string where
  "ex_new_and_deleted =
     ''diff --git a/x.txt b/x.txt'' @ [CHR 0x0A] @
     ''new file mode 100644'' @ [CHR 0x0A] @
     ''deleted file mode 100644'' @ [CHR 0x0A]"

definition ex_new_and_deleted_record :: "unit Diff" where
  "ex_new_and_deleted_record =
     \<lparr>repo = (), a_path = Some ''x.txt'', b_path = Some ''x.txt'', a_commit = None,
      b_commit = None, a_mode = Some ''100644'', b_mode = Some ''100644'', new_file = True,
      deleted_file = True, rename_from = None, rename_to = None, renamed = False, diff = []\<rparr>"

text \<open>A segment whose \<^verbatim>\<open>new file mode\<close> line is misspelt.\<close>

definition ex_misspelt :: string where
  "ex_misspelt =
     '' a/x.txt b/x.txt'' @ [CHR 0x0A] @
     ''new file mod 100644'' @ [CHR 0x0A] @
     ''index 0000000..e69de29'' @ [CHR 0x0A]"

text \<open>The first line of a segment, without its newline.\<close>

definition first_line :: "string \<Rightarrow> string" where
  "first_line d = takeWhile (\<lambda>c. c \<noteq> CHR 0x0A) d"

section \<open>Properties\<close>

subsection \<open>The split and the loop\<close>

lemma split_pieces_nonempty: "split_pieces s sep \<noteq> []"
  by (induction s sep rule: split_pieces.induct) (auto split: list.splits)

lemma parse_segments: "parse repo' text = parse_loop repo' (segments text) []"
  by (simp add: parse_def split_str_def delim_def segments_def)

lemma parse_loop_eq:
  "parse_loop repo' ds acc =
     (if \<forall>d \<in> set ds. diff_header d \<noteq> None
      then Inr (acc @ map (\<lambda>d. make_diff repo' d (the (diff_header d))) ds)
      else Inl AttributeError)"
  by (induction ds arbitrary: acc) (auto split: option.splits)

lemma delim_not_Nil: "delim \<noteq> []"
  by (simp add: delim_def)

lemma prefix_delim_Cons: "prefix delim (c # cs) \<Longrightarrow> c = CHR 0x0A"
  by (simp add: delim_def)

lemma occurrences_append_no_nl:
  "CHR 0x0A \<notin> set w \<Longrightarrow> occurrences delim (w @ t) = occurrences delim t"
  by (induction w) (auto dest: prefix_delim_Cons)

lemma occurrences_delim_skip:
  assumes "prefix delim s"
  shows "occurrences delim s = Suc (occurrences delim (drop (length delim) s))"
proof -
  from assms obtain t where s: "s = delim @ t" by (auto simp: prefix_def)
  have "occurrences delim (CHR 0x0A # ''diff --git'' @ t) = Suc (occurrences delim (''diff --git'' @ t))"
    by (simp add: delim_def)
  also have "occurrences delim (''diff --git'' @ t) = occurrences delim t"
    by (rule occurrences_append_no_nl) simp
  finally show ?thesis by (simp add: s delim_def)
qed

lemma length_split_pieces_gen:
  "sep = delim \<Longrightarrow> length (split_pieces s sep) = Suc (occurrences sep s)"
proof (induction s sep rule: split_pieces.induct)
  case (1 sep)
  then show ?case by simp
next
  case (2 c cs sep)
  show ?case
  proof (cases "prefix delim (c # cs)")
    case True
    with 2 delim_not_Nil have "length (split_pieces (drop (length delim) (c # cs)) delim)
        = Suc (occurrences delim (drop (length delim) (c # cs)))" by simp
    with True delim_not_Nil occurrences_delim_skip[OF True] 2(3) show ?thesis
      by (simp del: occurrences.simps)
  next
    case False
    with 2 have "length (split_pieces cs delim) = Suc (occurrences delim cs)" by simp
    with False 2(3) show ?thesis by (auto split: list.splits)
  qed
qed

lemma length_split_pieces: "length (split_pieces s delim) = Suc (occurrences delim s)"
  by (simp add: length_split_pieces_gen)

lemma length_segments: "length (segments text) = occurrences delim (CHR 0x0A # text)"
  by (simp add: segments_def length_split_pieces del: occurrences.simps split_pieces.simps)

lemma join_split_pieces: "join sep (split_pieces s sep) = s"
proof (induction s sep rule: split_pieces.induct)
  case (1 sep)
  then show ?case by simp
next
  case (2 c cs sep)
  show ?case
  proof (cases "sep \<noteq> [] \<and> prefix sep (c # cs)")
    case True
    then have eq: "sep @ drop (length sep) (c # cs) = c # cs"
      by (auto simp: prefix_def)
    from True 2 have ih: "join sep (split_pieces (drop (length sep) (c # cs)) sep) = drop (length sep) (c # cs)"
      by simp
    obtain q qs where q: "split_pieces (drop (length sep) (c # cs)) sep = q # qs"
      using split_pieces_nonempty by (cases "split_pieces (drop (length sep) (c # cs)) sep") auto
    have "split_pieces (c # cs) sep = [] # q # qs"
      using True q by simp
    then have "join sep (split_pieces (c # cs) sep) = sep @ join sep (q # qs)" by simp
    also have "\<dots> = sep @ drop (length sep) (c # cs)" using ih q by simp
    finally show ?thesis using eq by simp
  next
    case False
    with 2 have ih: "join sep (split_pieces cs sep) = cs" by simp
    obtain q qs where q: "split_pieces cs sep = q # qs"
      using split_pieces_nonempty by (cases "split_pieces cs sep") auto
    with ih False show ?thesis by (cases qs) auto
  qed
qed

lemma hd_split_pieces_prefix: "prefix (hd (split_pieces s sep)) s"
  by (induction s sep rule: split_pieces.induct) (auto split: list.splits)

lemma split_pieces_no_sep:
  "sep \<noteq> [] \<Longrightarrow> p \<in> set (split_pieces s sep) \<Longrightarrow> \<not> sublist sep p"
proof (induction s sep arbitrary: p rule: split_pieces.induct)
  case (1 sep)
  then show ?case by simp
next
  case (2 c cs sep)
  show ?case
  proof (cases "prefix sep (c # cs)")
    case True
    with 2 show ?thesis by auto
  next
    case False
    obtain q qs where q: "split_pieces cs sep = q # qs"
      using split_pieces_nonempty by (cases "split_pieces cs sep") auto
    from hd_split_pieces_prefix[of cs sep] q have pq: "prefix q cs" by simp
    from 2(4) False q have "p = c # q \<or> p \<in> set qs" using 2(3) by auto
    then show ?thesis
    proof
      assume p: "p = c # q"
      have "\<not> sublist sep q" using 2(2)[OF _ 2(3), of q] False q by simp
      moreover have "\<not> prefix sep (c # q)"
      proof
        assume "prefix sep (c # q)"
        moreover from pq have "prefix (c # q) (c # cs)" by simp
        ultimately have "prefix sep (c # cs)" by (rule prefix_order.trans)
        with False show False by simp
      qed
      ultimately show ?thesis using p 2(3) by (auto simp: sublist_Cons_right)
    next
      assume "p \<in> set qs"
      then show ?thesis using 2(2)[OF _ 2(3), of p] False q by simp
    qed
  qed
qed

subsection \<open>Backtracking changes nothing for \<^verbatim>\<open>diff_header\<close>\<close>

lemma prefix_drop_length: "prefix w (drop p s) \<Longrightarrow> p + length w \<le> length s \<or> w = []"
proof -
  assume "prefix w (drop p s)"
  then have "length w \<le> length (drop p s)" by (rule prefix_length_le)
  then show ?thesis by (cases w) auto
qed

lemma det_valid: "det s r st = Some st' \<Longrightarrow> valid s st \<Longrightarrow> valid s st'"
proof (induction r arbitrary: st st')
  case (Lit w)
  then show ?case using prefix_drop_length[of w "pos st" s]
    by (auto simp: valid_def split: if_splits)
next
  case (Plus P)
  have "length (takeWhile P (drop (pos st) s)) \<le> length (drop (pos st) s)"
    by (rule length_takeWhile_le)
  with Plus show ?case by (auto simp: valid_def Let_def split: if_splits)
qed (auto simp: valid_def split: if_splits option.splits)

lemma det_pos_mono: "det s r st = Some st' \<Longrightarrow> pos st \<le> pos st'"
  by (induction r arbitrary: st st') (fastforce simp: Let_def split: if_splits option.splits)+

lemma try_down_first: "0 < n \<Longrightarrow> f n \<noteq> None \<Longrightarrow> try_down f n = f n"
  by (cases n) auto

lemma try_down_last: "(\<And>m. 0 < m \<Longrightarrow> m < n \<Longrightarrow> f m = None) \<Longrightarrow> 0 < n \<Longrightarrow> try_down f n = f n"
proof (induction n)
  case 0
  then show ?case by simp
next
  case (Suc n)
  show ?case
  proof (cases "f (Suc n)")
    case None
    have "try_down f n = None"
    proof (cases "n = 0")
      case True then show ?thesis by simp
    next
      case False
      with Suc have "try_down f n = f n" by simp
      with Suc.prems(1)[of n] False show ?thesis by simp
    qed
    with None show ?thesis by simp
  next
    case (Some a)
    then show ?thesis by simp
  qed
qed

lemma agree_Lit: "agree s (Lit w) k"
  by (simp add: agree_def)

lemma agree_Bol: "agree s Bol k"
  by (simp add: agree_def)

lemma agree_Eol: "agree s Eol k"
  by (simp add: agree_def)

lemma agree_Seq:
  assumes "agree s a (\<lambda>st. rmatch s b st k)" and "agree s b k"
  shows "agree s (Seq a b) k"
  unfolding agree_def
proof (intro allI impI)
  fix st assume v: "valid s st"
  show "rmatch s (Seq a b) st k = (case det s (Seq a b) st of None \<Rightarrow> None | Some st' \<Rightarrow> k st')"
  proof (cases "det s a st")
    case None
    with assms(1) v show ?thesis by (simp add: agree_def)
  next
    case (Some st1)
    with v have "valid s st1" by (simp add: det_valid)
    with assms Some v show ?thesis by (simp add: agree_def)
  qed
qed

lemma agree_Grp:
  assumes "\<And>st0 :: mstate. agree s a (\<lambda>st'. k (st'\<lparr>groups := (groups st')(g \<mapsto> take (pos st' - pos st0) (drop (pos st0) s))\<rparr>))"
  shows "agree s (Grp g a) k"
  unfolding agree_def
proof (intro allI impI)
  fix st assume v: "valid s st"
  from assms[of st] v show "rmatch s (Grp g a) st k = (case det s (Grp g a) st of None \<Rightarrow> None | Some st' \<Rightarrow> k st')"
    by (cases "det s a st") (simp_all add: agree_def)
qed

lemma takeWhile_nth_drop:
  assumes "m < length (takeWhile P (drop p s))"
  shows "p + m < length s \<and> P (s ! (p + m))"
proof -
  have le: "length (takeWhile P (drop p s)) \<le> length (drop p s)" by (rule length_takeWhile_le)
  with assms have 1: "p + m < length s" by simp
  have "takeWhile P (drop p s) ! m = drop p s ! m" using assms by (rule takeWhile_nth)
  moreover have "P (takeWhile P (drop p s) ! m)" using assms by (meson nth_mem set_takeWhileD)
  ultimately show ?thesis using 1 by simp
qed

lemma agree_Plus_rejects:
  assumes "rejects P s k"
  shows "agree s (Plus P) k"
  unfolding agree_def
proof (intro allI impI)
  fix st assume "valid s st"
  let ?n = "length (takeWhile P (drop (pos st) s))"
  let ?f = "\<lambda>n. k (st\<lparr>pos := pos st + n\<rparr>)"
  show "rmatch s (Plus P) st k = (case det s (Plus P) st of None \<Rightarrow> None | Some st' \<Rightarrow> k st')"
  proof (cases "?n = 0")
    case True
    then show ?thesis by simp
  next
    case False
    have "try_down ?f ?n = ?f ?n"
    proof (rule try_down_last)
      fix m assume "0 < m" "m < ?n"
      with takeWhile_nth_drop[of m P "pos st" s] assms show "?f m = None"
        by (simp add: rejects_def)
    qed (use False in simp)
    with False show ?thesis by (simp add: Let_def)
  qed
qed

lemma agree_Plus_total:
  assumes "total s k"
  shows "agree s (Plus P) k"
  unfolding agree_def
proof (intro allI impI)
  fix st assume v: "valid s st"
  let ?n = "length (takeWhile P (drop (pos st) s))"
  let ?f = "\<lambda>n. k (st\<lparr>pos := pos st + n\<rparr>)"
  show "rmatch s (Plus P) st k = (case det s (Plus P) st of None \<Rightarrow> None | Some st' \<Rightarrow> k st')"
  proof (cases "?n = 0")
    case True
    then show ?thesis by simp
  next
    case False
    have "?n \<le> length (drop (pos st) s)" by (rule length_takeWhile_le)
    with v have "valid s (st\<lparr>pos := pos st + ?n\<rparr>)" by (simp add: valid_def)
    with assms have "?f ?n \<noteq> None" by (simp add: total_def)
    with False have "try_down ?f ?n = ?f ?n" by (simp add: try_down_first)
    with False show ?thesis by (simp add: Let_def)
  qed
qed

lemma agree_Opt:
  assumes "agree s a k" and "total s k"
  shows "agree s (Opt a) k"
  unfolding agree_def
proof (intro allI impI)
  fix st assume v: "valid s st"
  show "rmatch s (Opt a) st k = (case det s (Opt a) st of None \<Rightarrow> None | Some st' \<Rightarrow> k st')"
  proof (cases "det s a st")
    case None
    with assms(1) v show ?thesis by (simp add: agree_def)
  next
    case (Some st1)
    with v have "valid s st1" by (simp add: det_valid)
    with assms(2) obtain r where "k st1 = Some r" by (auto simp: total_def)
    with assms(1) Some v show ?thesis by (simp add: agree_def)
  qed
qed

lemma agree_Alt:
  assumes "agree s a k" and "agree s b k" and "total s k"
  shows "agree s (Alt a b) k"
  unfolding agree_def
proof (intro allI impI)
  fix st assume v: "valid s st"
  show "rmatch s (Alt a b) st k = (case det s (Alt a b) st of None \<Rightarrow> None | Some st' \<Rightarrow> k st')"
  proof (cases "det s a st")
    case None
    with assms(1,2) v show ?thesis by (simp add: agree_def)
  next
    case (Some st1)
    with v have "valid s st1" by (simp add: det_valid)
    with assms(3) obtain r where "k st1 = Some r" by (auto simp: total_def)
    with assms(1) Some v show ?thesis by (simp add: agree_def)
  qed
qed

lemma total_Some: "total s Some"
  by (simp add: total_def)

lemma total_Opt: "total s k \<Longrightarrow> total s (\<lambda>st. rmatch s (Opt a) st k)"
  by (auto simp: total_def split: option.splits)

lemma agree_Opt_post:
  assumes "agree s a k"
    and "\<And>st st'. valid s st \<Longrightarrow> det s a st = Some st' \<Longrightarrow> k st' \<noteq> None"
  shows "agree s (Opt a) k"
  unfolding agree_def
proof (intro allI impI)
  fix st assume v: "valid s st"
  show "rmatch s (Opt a) st k = (case det s (Opt a) st of None \<Rightarrow> None | Some st' \<Rightarrow> k st')"
  proof (cases "det s a st")
    case None
    with assms(1) v show ?thesis by (simp add: agree_def)
  next
    case (Some st1)
    with v assms(2) obtain r where "k st1 = Some r" by blast
    with assms(1) Some v show ?thesis by (simp add: agree_def)
  qed
qed

lemma prefix_Cons_drop: "prefix (c # w) (drop p s) \<Longrightarrow> p < length s \<and> s ! p = c"
proof -
  assume a: "prefix (c # w) (drop p s)"
  then obtain t where t: "drop p s = c # w @ t" by (auto simp: prefix_def)
  then have "p < length s" by (cases "p < length s") auto
  moreover from this t have "s ! p = c" by (metis hd_drop_conv_nth list.sel(1))
  ultimately show ?thesis by simp
qed

lemma rejects_Lit: "\<not> P c \<Longrightarrow> rejects P s (\<lambda>st. rmatch s (Lit (c # w)) st k)"
  by (auto simp: rejects_def dest: prefix_Cons_drop)

lemma rejects_Seq:
  "rejects P s (\<lambda>st. rmatch s a st (\<lambda>st'. rmatch s b st' k)) \<Longrightarrow>
   rejects P s (\<lambda>st. rmatch s (Seq a b) st k)"
  by simp

lemma rejects_eol: "\<not> P (CHR 0x0A) \<Longrightarrow> rejects P s (\<lambda>st. rmatch s eol st k)"
  by (auto simp: rejects_def eol_def dest: prefix_Cons_drop)

lemma agree_Grp_Plus_rejects:
  assumes "rejects P s k"
  shows "agree s (Grp g (Plus P)) k"
proof (rule agree_Grp, rule agree_Plus_rejects)
  fix st0 :: mstate
  show "rejects P s (\<lambda>st'. k (st'\<lparr>groups := (groups st')(g \<mapsto> take (pos st' - pos st0) (drop (pos st0) s))\<rparr>))"
    using assms by (simp add: rejects_def)
qed

lemma agree_Grp_Plus_total:
  assumes "total s k"
  shows "agree s (Grp g (Plus P)) k"
proof (rule agree_Grp, rule agree_Plus_total)
  fix st0 :: mstate
  show "total s (\<lambda>st'. k (st'\<lparr>groups := (groups st')(g \<mapsto> take (pos st' - pos st0) (drop (pos st0) s))\<rparr>))"
    using assms by (simp add: total_def valid_def)
qed

lemma agree_eol: "total s k \<Longrightarrow> agree s eol k"
  unfolding eol_def by (intro agree_Alt agree_Lit agree_Eol)

lemma total_Seq_Opt:
  "total s (\<lambda>st. rmatch s b st k) \<Longrightarrow> total s (\<lambda>st. rmatch s (Seq (Opt a) b) st k)"
  by (auto simp: total_def split: option.splits)

lemma not_classes [simp]:
  "\<not> non_space (CHR 0x0A)" "\<not> non_space CHR '' ''" "\<not> digit (CHR 0x0A)" "\<not> digit CHR ''%''"
  "\<not> dot (CHR 0x0A)" "\<not> hexdigit CHR ''.''"
  by (simp_all add: non_space_def is_space_def digit_def dot_def hexdigit_def)

lemma agree_rename_clause: "total s k \<Longrightarrow> agree s rename_clause k"
  unfolding rename_clause_def
  apply (simp del: rmatch.simps)
  apply (intro agree_Seq agree_Bol agree_Lit agree_Grp_Plus_rejects agree_eol rejects_Seq
      rejects_Lit rejects_eol)
  apply simp_all
  done

lemma agree_rename: "total s k \<Longrightarrow> agree s (Opt rename_clause) k"
  by (rule agree_Opt[OF agree_rename_clause])

lemma agree_mode_clause: "total s k \<Longrightarrow> agree s mode_clause k"
  unfolding mode_clause_def
  apply (simp del: rmatch.simps)
  apply (intro agree_Seq agree_Bol agree_Lit agree_Grp_Plus_rejects agree_eol rejects_Seq
      rejects_Lit rejects_eol)
  apply simp_all
  done

lemma agree_mode: "total s k \<Longrightarrow> agree s (Opt mode_clause) k"
  by (rule agree_Opt[OF agree_mode_clause])

lemma agree_new_file_clause: "total s k \<Longrightarrow> agree s new_file_clause k"
  unfolding new_file_clause_def
  apply (simp del: rmatch.simps)
  apply (intro agree_Seq agree_Bol agree_Lit agree_Grp_Plus_rejects agree_eol rejects_Seq
      rejects_Lit rejects_eol)
  apply simp_all
  done

lemma agree_new_file: "total s k \<Longrightarrow> agree s (Opt new_file_clause) k"
  by (rule agree_Opt[OF agree_new_file_clause])

lemma agree_deleted_file_clause: "total s k \<Longrightarrow> agree s deleted_file_clause k"
  unfolding deleted_file_clause_def
  apply (simp del: rmatch.simps)
  apply (intro agree_Seq agree_Bol agree_Lit agree_Grp_Plus_rejects agree_eol rejects_Seq
      rejects_Lit rejects_eol)
  apply simp_all
  done

lemma agree_deleted_file: "total s k \<Longrightarrow> agree s (Opt deleted_file_clause) k"
  by (rule agree_Opt[OF agree_deleted_file_clause])

lemma takeWhile_Nil_drop:
  assumes "takeWhile dot (drop p s) = []" and "p \<le> length s"
  shows "p = length s \<or> prefix [CHR 0x0A] (drop p s)"
proof (cases "drop p s")
  case Nil
  with assms show ?thesis by simp
next
  case (Cons c cs)
  with assms show ?thesis by (auto simp: dot_def split: if_splits)
qed

lemma rmatch_eol_at_line_end:
  assumes "total s k" and "valid s st"
    and "pos st = length s \<or> prefix [CHR 0x0A] (drop (pos st) s)"
  shows "rmatch s eol st k \<noteq> None"
proof (cases "prefix [CHR 0x0A] (drop (pos st) s)")
  case True
  then have "pos st + 1 \<le> length s" using prefix_drop_length[of "[CHR 0x0A]" "pos st" s] by simp
  then have "valid s (st\<lparr>pos := pos st + 1\<rparr>)" by (simp add: valid_def)
  with assms(1) have "k (st\<lparr>pos := pos st + 1\<rparr>) \<noteq> None" by (simp add: total_def)
  with True show ?thesis by (auto simp: eol_def)
next
  case False
  with assms have "k st \<noteq> None" "pos st = length s" by (auto simp: total_def)
  with False show ?thesis by (auto simp: eol_def)
qed

lemma takeWhile_dot_rest:
  "p \<le> length s \<Longrightarrow> length (takeWhile dot (drop p s)) + p = length s
   \<or> prefix [CHR 0x0A] (drop (p + length (takeWhile dot (drop p s))) s)"
proof -
  assume le: "p \<le> length s"
  have "drop p s = takeWhile dot (drop p s) @ dropWhile dot (drop p s)" by simp
  moreover have "drop (length (takeWhile dot (drop p s))) (drop p s) = dropWhile dot (drop p s)"
    by (metis dropWhile_eq_drop)
  ultimately have d: "drop (p + length (takeWhile dot (drop p s))) s = dropWhile dot (drop p s)"
    by (simp add: add.commute)
  show ?thesis
  proof (cases "dropWhile dot (drop p s)")
    case Nil
    then have "takeWhile dot (drop p s) = drop p s" by (metis append_Nil2 takeWhile_dropWhile_id)
    then have "length (takeWhile dot (drop p s)) = length s - p" by (metis length_drop)
    then show ?thesis using le by simp
  next
    case (Cons c cs)
    then have "\<not> dot c" by (metis hd_dropWhile list.sel(1) list.distinct(1))
    with Cons d show ?thesis by (simp add: dot_def)
  qed
qed

lemma det_Grp_Plus_dot_end:
  assumes "det s (Grp g (Plus dot)) st = Some st'" and "valid s st"
  shows "pos st' = length s \<or> prefix [CHR 0x0A] (drop (pos st') s)"
  using assms takeWhile_dot_rest[of "pos st" s]
  by (auto simp: Let_def add.commute valid_def split: if_splits)

lemma total_opt_mode_eol:
  assumes "total s k"
  shows "total s (\<lambda>st. rmatch s (Seq (Opt (Grp g (Plus dot))) eol) st k)"
  unfolding total_def
proof (intro allI impI)
  fix st assume v: "valid s st"
  let ?k = "\<lambda>st'. rmatch s eol st' k"
  have ag: "agree s (Grp g (Plus dot)) ?k"
    by (intro agree_Grp_Plus_rejects rejects_eol) simp
  show "rmatch s (Seq (Opt (Grp g (Plus dot))) eol) st k \<noteq> None"
  proof (cases "det s (Grp g (Plus dot)) st")
    case None
    then have "takeWhile dot (drop (pos st) s) = []" by (auto simp: Let_def split: if_splits)
    with v have "pos st = length s \<or> prefix [CHR 0x0A] (drop (pos st) s)"
      by (intro takeWhile_Nil_drop) (simp_all add: valid_def)
    with assms v have "?k st \<noteq> None" by (rule rmatch_eol_at_line_end)
    moreover from ag v None have "rmatch s (Grp g (Plus dot)) st ?k = None" by (simp add: agree_def)
    ultimately show ?thesis by simp
  next
    case (Some st1)
    from Some v have "valid s st1" by (rule det_valid)
    moreover from Some v have "pos st1 = length s \<or> prefix [CHR 0x0A] (drop (pos st1) s)"
      by (rule det_Grp_Plus_dot_end)
    ultimately have "?k st1 \<noteq> None" using assms by (intro rmatch_eol_at_line_end)
    moreover from ag v Some have "rmatch s (Grp g (Plus dot)) st ?k = ?k st1" by (simp add: agree_def)
    ultimately show ?thesis by auto
  qed
qed

lemma agree_opt_mode:
  assumes "total s k"
  shows "agree s (Opt (Grp g (Plus dot))) (\<lambda>st. rmatch s eol st k)"
proof (rule agree_Opt_post)
  show "agree s (Grp g (Plus dot)) (\<lambda>st. rmatch s eol st k)"
    by (intro agree_Grp_Plus_rejects rejects_eol) simp
next
  fix st st' assume v: "valid s st" and d: "det s (Grp g (Plus dot)) st = Some st'"
  from d v have "valid s st'" by (rule det_valid)
  moreover from d v have "pos st' = length s \<or> prefix [CHR 0x0A] (drop (pos st') s)"
    by (rule det_Grp_Plus_dot_end)
  ultimately show "rmatch s eol st' k \<noteq> None" using assms by (intro rmatch_eol_at_line_end)
qed

lemma agree_index_clause:
  assumes "total s k"
  shows "agree s index_clause k"
proof -
  let ?tail = "Seq (Opt (Grp G_b_mode (Plus dot))) eol"
  have t2: "total s (\<lambda>st. rmatch s ?tail st k)"
    using assms by (rule total_opt_mode_eol)
  then have t1: "total s (\<lambda>st. rmatch s (Seq (Opt (Lit '' '')) ?tail) st k)"
    by (rule total_Seq_Opt)
  have a3: "agree s ?tail k"
    by (rule agree_Seq[OF agree_opt_mode[OF assms] agree_eol[OF assms]])
  have a2: "agree s (Seq (Opt (Lit '' '')) ?tail) k"
    by (rule agree_Seq[OF agree_Opt[OF agree_Lit t2] a3])
  have a1: "agree s (Seq (Grp G_b_commit (Plus hexdigit)) (Seq (Opt (Lit '' '')) ?tail)) k"
    by (rule agree_Seq[OF agree_Grp_Plus_total[OF t1] a2])
  let ?b = "Seq (Grp G_b_commit (Plus hexdigit)) (Seq (Opt (Lit '' '')) ?tail)"
  have a0: "agree s (Seq (Lit ''..'') ?b) k"
    by (rule agree_Seq[OF agree_Lit a1])
  have r: "rejects hexdigit s (\<lambda>st. rmatch s (Seq (Lit ''..'') ?b) st k)"
    by (intro rejects_Seq rejects_Lit) simp
  have "agree s (Seq (Grp G_a_commit (Plus hexdigit)) (Seq (Lit ''..'') ?b)) k"
    by (rule agree_Seq[OF agree_Grp_Plus_rejects[OF r] a0])
  then have "agree s (Seq (Lit ''index '') (Seq (Grp G_a_commit (Plus hexdigit)) (Seq (Lit ''..'') ?b))) k"
    by (rule agree_Seq[OF agree_Lit])
  then have "agree s (Seq Bol (Seq (Lit ''index '') (Seq (Grp G_a_commit (Plus hexdigit)) (Seq (Lit ''..'') ?b)))) k"
    by (rule agree_Seq[OF agree_Bol])
  then show ?thesis
    by (simp add: index_clause_def)
qed

lemma agree_index: "total s k \<Longrightarrow> agree s (Opt index_clause) k"
  by (rule agree_Opt[OF agree_index_clause])

lemma total_clauses:
  "total s (\<lambda>st. rmatch s (Opt index_clause) st Some)"
  "total s (\<lambda>st. rmatch s (Seq (Opt deleted_file_clause) (Opt index_clause)) st Some)"
  "total s (\<lambda>st. rmatch s (Seq (Opt new_file_clause) (Seq (Opt deleted_file_clause) (Opt index_clause))) st Some)"
  "total s (\<lambda>st. rmatch s (Seq (Opt mode_clause) (Seq (Opt new_file_clause) (Seq (Opt deleted_file_clause) (Opt index_clause)))) st Some)"
  by (intro total_Seq_Opt total_Opt total_Some)+

lemma agree_optional:
  "agree s (Seq (Opt rename_clause) (Seq (Opt mode_clause) (Seq (Opt new_file_clause) (Seq (Opt deleted_file_clause) (Opt index_clause))))) Some"
proof -
  have 5: "agree s (Opt index_clause) Some"
    by (rule agree_index[OF total_Some])
  have 4: "agree s (Seq (Opt deleted_file_clause) (Opt index_clause)) Some"
    by (rule agree_Seq[OF agree_deleted_file[OF total_clauses(1)] 5])
  have 3: "agree s (Seq (Opt new_file_clause) (Seq (Opt deleted_file_clause) (Opt index_clause))) Some"
    by (rule agree_Seq[OF agree_new_file[OF total_clauses(2)] 4])
  have 2: "agree s (Seq (Opt mode_clause) (Seq (Opt new_file_clause) (Seq (Opt deleted_file_clause) (Opt index_clause)))) Some"
    by (rule agree_Seq[OF agree_mode[OF total_clauses(3)] 3])
  show ?thesis
    by (rule agree_Seq[OF agree_rename[OF total_clauses(4)] 2])
qed

lemma agree_diff_header: "agree s diff_header_rx Some"
proof -
  let ?opt = "Seq (Opt rename_clause) (Seq (Opt mode_clause) (Seq (Opt new_file_clause) (Seq (Opt deleted_file_clause) (Opt index_clause))))"
  have 1: "agree s (Seq (Lit [CHR 0x0A]) ?opt) Some"
    by (rule agree_Seq[OF agree_Lit agree_optional])
  have r1: "rejects non_space s (\<lambda>st. rmatch s (Seq (Lit [CHR 0x0A]) ?opt) st Some)"
    by (intro rejects_Seq rejects_Lit) simp
  have 2: "agree s (Seq (Grp G_b_path (Plus non_space)) (Seq (Lit [CHR 0x0A]) ?opt)) Some"
    by (rule agree_Seq[OF agree_Grp_Plus_rejects[OF r1] 1])
  have 3: "agree s (Seq (Lit '' b/'') (Seq (Grp G_b_path (Plus non_space)) (Seq (Lit [CHR 0x0A]) ?opt))) Some"
    by (rule agree_Seq[OF agree_Lit 2])
  have r2: "rejects non_space s (\<lambda>st. rmatch s (Seq (Lit '' b/'') (Seq (Grp G_b_path (Plus non_space))
              (Seq (Lit [CHR 0x0A]) ?opt))) st Some)"
    by (intro rejects_Seq rejects_Lit) simp
  have 4: "agree s (Seq (Grp G_a_path (Plus non_space)) (Seq (Lit '' b/'')
              (Seq (Grp G_b_path (Plus non_space)) (Seq (Lit [CHR 0x0A]) ?opt)))) Some"
    by (rule agree_Seq[OF agree_Grp_Plus_rejects[OF r2] 3])
  have 5: "agree s (Seq (Lit '' a/'') (Seq (Grp G_a_path (Plus non_space)) (Seq (Lit '' b/'')
              (Seq (Grp G_b_path (Plus non_space)) (Seq (Lit [CHR 0x0A]) ?opt))))) Some"
    by (rule agree_Seq[OF agree_Lit 4])
  then show ?thesis
    by (simp add: diff_header_rx_def mandatory_rx_def)
qed

lemma diff_header_det: "diff_header s = det s diff_header_rx start"
  using agree_diff_header[of s]
  by (auto simp: agree_def diff_header_def valid_def start_def split: option.splits)

subsection \<open>What a match of each clause consumes and captures\<close>

lemma det_SeqE:
  assumes "det s (Seq a b) st = Some st'"
  obtains st1 where "det s a st = Some st1" and "det s b st1 = Some st'"
  using assms by (auto split: option.splits)

lemma det_BolD: "det s Bol st = Some st' \<Longrightarrow> st' = st"
  by (auto split: if_splits)

lemma det_Lit_shape:
  assumes "det s (Lit w) st = Some st'"
  shows "drop (pos st) s = w @ drop (pos st') s \<and> groups st' = groups st
         \<and> pos st' = pos st + length w"
proof -
  from assms have p: "prefix w (drop (pos st) s)" and st': "st' = st\<lparr>pos := pos st + length w\<rparr>"
    by (auto split: if_splits)
  from p obtain t where t: "drop (pos st) s = w @ t" by (auto simp: prefix_def)
  have "drop (pos st + length w) s = drop (length w) (drop (pos st) s)"
    by (simp add: add.commute)
  with t have "drop (pos st + length w) s = t" by simp
  with t st' show ?thesis by simp
qed

lemma det_Grp_Plus_shape:
  assumes "det s (Grp g (Plus P)) st = Some st'"
  shows "\<exists>a. a \<noteq> [] \<and> (\<forall>c \<in> set a. P c) \<and> a = takeWhile P (drop (pos st) s)
             \<and> drop (pos st) s = a @ drop (pos st') s
             \<and> groups st' = (groups st)(g \<mapsto> a) \<and> pos st' = pos st + length a"
proof -
  let ?a = "takeWhile P (drop (pos st) s)"
  from assms have ne: "?a \<noteq> []"
    and st': "st' = st\<lparr>pos := pos st + length ?a, groups := (groups st)(g \<mapsto> take (length ?a) (drop (pos st) s))\<rparr>"
    by (auto simp: Let_def split: if_splits)
  have tk: "take (length ?a) (drop (pos st) s) = ?a"
    by (metis takeWhile_eq_take)
  have "drop (pos st + length ?a) s = drop (length ?a) (drop (pos st) s)"
    by (simp add: add.commute)
  also have "\<dots> = dropWhile P (drop (pos st) s)"
    by (metis dropWhile_eq_drop)
  finally have "drop (pos st) s = ?a @ drop (pos st + length ?a) s" by simp
  moreover have "\<forall>c \<in> set ?a. P c" by (auto dest: set_takeWhileD)
  ultimately show ?thesis using ne st' tk by (intro exI[of _ ?a]) simp
qed

lemma det_eol_shape:
  assumes "det s eol st = Some st'"
  shows "groups st' = groups st
         \<and> ((drop (pos st) s = CHR 0x0A # drop (pos st') s \<and> pos st' = pos st + 1)
            \<or> (st' = st \<and> drop (pos st) s = []))"
proof (cases "det s (Lit [CHR 0x0A]) st")
  case (Some st1)
  with assms have "st1 = st'" by (simp add: eol_def)
  with det_Lit_shape[OF Some] show ?thesis by simp
next
  case None
  with assms have e: "det s Eol st = Some st'" by (simp add: eol_def)
  then have st': "st' = st" by (auto split: if_splits)
  from None have np: "\<not> prefix [CHR 0x0A] (drop (pos st) s)" by (auto split: if_splits)
  have "drop (pos st) s = []"
  proof (cases "pos st < length s")
    case True
    then have "drop (pos st) s = s ! pos st # drop (Suc (pos st)) s" by (simp add: Cons_nth_drop_Suc)
    with np have "s ! pos st \<noteq> CHR 0x0A" by auto
    with e True show ?thesis by (auto split: if_splits)
  next
    case False
    then show ?thesis by simp
  qed
  with st' show ?thesis by simp
qed

lemma mandatory_shape:
  assumes "det d (seqs mandatory_rx) st = Some st1"
  shows "\<exists>a b. a \<noteq> [] \<and> b \<noteq> [] \<and> (\<forall>c \<in> set a. non_space c) \<and> (\<forall>c \<in> set b. non_space c)
           \<and> drop (pos st) d = '' a/'' @ a @ '' b/'' @ b @ CHR 0x0A # drop (pos st1) d
           \<and> groups st1 = (groups st)(G_a_path \<mapsto> a, G_b_path \<mapsto> b)
           \<and> pos st1 = pos st + 7 + length a + length b"
proof -
  from assms obtain s1 s2 s3 s4 where
    1: "det d (Lit '' a/'') st = Some s1" and
    2: "det d (Grp G_a_path (Plus non_space)) s1 = Some s2" and
    3: "det d (Lit '' b/'') s2 = Some s3" and
    4: "det d (Grp G_b_path (Plus non_space)) s3 = Some s4" and
    5: "det d (Lit [CHR 0x0A]) s4 = Some st1"
    unfolding mandatory_rx_def seqs.simps by (elim det_SeqE)
  from det_Grp_Plus_shape[OF 2] obtain a where a: "a \<noteq> []" "\<forall>c \<in> set a. non_space c"
    "drop (pos s1) d = a @ drop (pos s2) d" "groups s2 = (groups s1)(G_a_path \<mapsto> a)"
    "pos s2 = pos s1 + length a" by blast
  from det_Grp_Plus_shape[OF 4] obtain b where b: "b \<noteq> []" "\<forall>c \<in> set b. non_space c"
    "drop (pos s3) d = b @ drop (pos s4) d" "groups s4 = (groups s3)(G_b_path \<mapsto> b)"
    "pos s4 = pos s3 + length b" by blast
  from det_Lit_shape[OF 1] det_Lit_shape[OF 3] det_Lit_shape[OF 5] a b
  show ?thesis by (intro exI[of _ a] exI[of _ b]) simp
qed

lemma det_frame: "det s r st = Some st' \<Longrightarrow> g \<notin> grps r \<Longrightarrow> groups st' g = groups st g"
proof (induction r arbitrary: st st')
  case (Lit w)
  then show ?case by (auto split: if_splits)
next
  case (Plus P)
  then show ?case by (auto simp: Let_def split: if_splits)
next
  case Bol
  then show ?case by (auto split: if_splits)
next
  case Eol
  then show ?case by (auto split: if_splits)
next
  case (Seq a b)
  from Seq.prems(1) obtain st1 where 1: "det s a st = Some st1" and 2: "det s b st1 = Some st'"
    by (rule det_SeqE)
  from Seq.prems(2) have "g \<notin> grps a" "g \<notin> grps b" by simp_all
  with Seq.IH(1)[OF 1] Seq.IH(2)[OF 2] show ?case by simp
next
  case (Alt a b)
  from Alt.prems(2) have g: "g \<notin> grps a" "g \<notin> grps b" by simp_all
  show ?case
  proof (cases "det s a st")
    case None
    with Alt.prems(1) have "det s b st = Some st'" by simp
    with Alt.IH(2) g show ?thesis by simp
  next
    case (Some st1)
    with Alt.prems(1) have "st1 = st'" by simp
    with Some Alt.IH(1) g show ?thesis by simp
  qed
next
  case (Opt a)
  from Opt.prems(2) have g: "g \<notin> grps a" by simp
  show ?case
  proof (cases "det s a st")
    case None
    with Opt.prems(1) show ?thesis by simp
  next
    case (Some st1)
    with Opt.prems(1) have "st1 = st'" by simp
    with Some Opt.IH g show ?thesis by simp
  qed
next
  case (Grp g' r)
  from Grp.prems(2) have g: "g \<noteq> g'" "g \<notin> grps r" by simp_all
  from Grp.prems(1) obtain st1 where 1: "det s r st = Some st1"
    and 2: "st' = st1\<lparr>groups := (groups st1)(g' \<mapsto> take (pos st1 - pos st) (drop (pos st) s))\<rparr>"
    by (auto split: option.splits)
  from Grp.IH[OF 1 g(2)] 2 g(1) show ?case by simp
qed

lemma det_groups_nonempty:
  "det s r st = Some st' \<Longrightarrow> plus_groups r \<Longrightarrow> groups st g \<noteq> Some [] \<Longrightarrow> groups st' g \<noteq> Some []"
proof (induction r arbitrary: st st')
  case (Lit w)
  then show ?case by (auto split: if_splits)
next
  case (Plus P)
  then show ?case by (auto simp: Let_def split: if_splits)
next
  case Bol
  then show ?case by (auto split: if_splits)
next
  case Eol
  then show ?case by (auto split: if_splits)
next
  case (Seq a b)
  from Seq.prems(1) obtain st1 where 1: "det s a st = Some st1" and 2: "det s b st1 = Some st'"
    by (rule det_SeqE)
  from Seq.prems(2) have p: "plus_groups a" "plus_groups b" by simp_all
  from Seq.IH(1)[OF 1 p(1) Seq.prems(3)] have "groups st1 g \<noteq> Some []" .
  from Seq.IH(2)[OF 2 p(2) this] show ?case .
next
  case (Alt a b)
  from Alt.prems(2) have p: "plus_groups a" "plus_groups b" by simp_all
  show ?case
  proof (cases "det s a st")
    case None
    with Alt.prems(1) have "det s b st = Some st'" by simp
    from Alt.IH(2)[OF this p(2) Alt.prems(3)] show ?thesis .
  next
    case (Some st1)
    with Alt.prems(1) have "det s a st = Some st'" by simp
    from Alt.IH(1)[OF this p(1) Alt.prems(3)] show ?thesis .
  qed
next
  case (Opt a)
  from Opt.prems(2) have p: "plus_groups a" by simp
  show ?case
  proof (cases "det s a st")
    case None
    with Opt.prems(1,3) show ?thesis by simp
  next
    case (Some st1)
    with Opt.prems(1) have "det s a st = Some st'" by simp
    from Opt.IH[OF this p Opt.prems(3)] show ?thesis .
  qed
next
  case (Grp g' r)
  from Grp.prems(2) obtain P where r: "r = Plus P" by (cases r) simp_all
  from Grp.prems(1) have "det s (Grp g' (Plus P)) st = Some st'" by (simp only: r)
  from det_Grp_Plus_shape[OF this] obtain a where "a \<noteq> []" "groups st' = (groups st)(g' \<mapsto> a)"
    by blast
  with Grp.prems(3) show ?case by simp
qed

subsection \<open>The header, clause by clause\<close>

lemma agree_mandatory: "agree s (seqs mandatory_rx) Some"
proof -
  have r1: "rejects non_space s (\<lambda>st. rmatch s (Lit [CHR 0x0A]) st Some)"
    by (intro rejects_Lit) simp
  have 2: "agree s (Seq (Grp G_b_path (Plus non_space)) (Lit [CHR 0x0A])) Some"
    by (rule agree_Seq[OF agree_Grp_Plus_rejects[OF r1] agree_Lit])
  have 3: "agree s (Seq (Lit '' b/'') (Seq (Grp G_b_path (Plus non_space)) (Lit [CHR 0x0A]))) Some"
    by (rule agree_Seq[OF agree_Lit 2])
  have r2: "rejects non_space s (\<lambda>st. rmatch s (Seq (Lit '' b/'') (Seq (Grp G_b_path (Plus non_space))
              (Lit [CHR 0x0A]))) st Some)"
    by (intro rejects_Seq rejects_Lit) simp
  have 4: "agree s (Seq (Grp G_a_path (Plus non_space)) (Seq (Lit '' b/'')
              (Seq (Grp G_b_path (Plus non_space)) (Lit [CHR 0x0A])))) Some"
    by (rule agree_Seq[OF agree_Grp_Plus_rejects[OF r2] 3])
  have "agree s (Seq (Lit '' a/'') (Seq (Grp G_a_path (Plus non_space)) (Seq (Lit '' b/'')
              (Seq (Grp G_b_path (Plus non_space)) (Lit [CHR 0x0A]))))) Some"
    by (rule agree_Seq[OF agree_Lit 4])
  then show ?thesis by (simp add: mandatory_rx_def)
qed

lemma valid_start: "valid s start"
  by (simp add: valid_def start_def)

lemma path_clause_det: "path_clause d = (det d (seqs mandatory_rx) start \<noteq> None)"
  using agree_mandatory[of d] valid_start[of d]
  by (auto simp: path_clause_def agree_def split: option.splits)

lemma agree_clauses:
  "agree s rename_clause Some" "agree s mode_clause Some" "agree s new_file_clause Some"
  "agree s deleted_file_clause Some" "agree s index_clause Some"
  by (intro agree_rename_clause agree_mode_clause agree_new_file_clause agree_deleted_file_clause
      agree_index_clause total_Some)+

lemma clause_step_det:
  assumes "valid d st" and "r \<in> {rename_clause, mode_clause, new_file_clause, deleted_file_clause, index_clause}"
  shows "clause_step d r st = (case det d r st of Some st' \<Rightarrow> st' | None \<Rightarrow> st)"
proof -
  from assms(2) agree_clauses[of d] have "agree d r Some" by auto
  with assms(1) show ?thesis by (auto simp: clause_step_def agree_def split: option.splits)
qed

lemma det_Opt: "det s (Opt a) st = Some (case det s a st of Some st' \<Rightarrow> st' | None \<Rightarrow> st)"
  by (simp split: option.splits)

lemma det_Seq_bind: "det s (Seq a b) st = (case det s a st of None \<Rightarrow> None | Some st' \<Rightarrow> det s b st')"
  by simp

lemma det_header_split:
  "det d diff_header_rx st =
     (case det d (seqs mandatory_rx) st of
        None \<Rightarrow> None
      | Some st1 \<Rightarrow>
          det d (seqs [Opt rename_clause, Opt mode_clause, Opt new_file_clause,
                       Opt deleted_file_clause, Opt index_clause]) st1)"
  by (simp add: diff_header_rx_def mandatory_rx_def split: option.splits)

lemma valid_clause_step: "valid d st \<Longrightarrow> valid d (case det d r st of Some st' \<Rightarrow> st' | None \<Rightarrow> st)"
  by (auto split: option.splits dest: det_valid)

lemma valid_clause_step_rmatch:
  assumes "valid d st" and "r \<in> {rename_clause, mode_clause, new_file_clause, deleted_file_clause, index_clause}"
  shows "valid d (clause_step d r st)"
  using assms valid_clause_step[of d st r] by (simp only: clause_step_det)

lemma diff_header_steps:
  "diff_header d =
     (case rmatch d (seqs mandatory_rx) start Some of
        None \<Rightarrow> None
      | Some st1 \<Rightarrow>
          Some (clause_step d index_clause (clause_step d deleted_file_clause
                 (clause_step d new_file_clause (clause_step d mode_clause
                   (clause_step d rename_clause st1))))))"
proof (cases "det d (seqs mandatory_rx) start")
  case None
  moreover from None have "rmatch d (seqs mandatory_rx) start Some = None"
    using agree_mandatory[of d] valid_start[of d] by (simp add: agree_def)
  ultimately show ?thesis by (simp add: diff_header_det det_header_split)
next
  case (Some st1)
  then have m: "rmatch d (seqs mandatory_rx) start Some = Some st1"
    using agree_mandatory[of d] valid_start[of d] by (simp add: agree_def)
  from Some have v1: "valid d st1" using valid_start by (rule det_valid)
  let ?s2 = "clause_step d rename_clause st1"
  let ?s3 = "clause_step d mode_clause ?s2"
  let ?s4 = "clause_step d new_file_clause ?s3"
  let ?s5 = "clause_step d deleted_file_clause ?s4"
  have v2: "valid d ?s2" using v1 by (rule valid_clause_step_rmatch) simp
  have v3: "valid d ?s3" using v2 by (rule valid_clause_step_rmatch) simp
  have v4: "valid d ?s4" using v3 by (rule valid_clause_step_rmatch) simp
  have v5: "valid d ?s5" using v4 by (rule valid_clause_step_rmatch) simp
  have "det d (Opt rename_clause) st1 = Some ?s2"
    using v1 by (simp add: clause_step_det det_Opt del: det.simps)
  moreover have "det d (Opt mode_clause) ?s2 = Some ?s3"
    using v2 by (simp add: clause_step_det[of d ?s2] det_Opt del: det.simps)
  moreover have "det d (Opt new_file_clause) ?s3 = Some ?s4"
    using v3 by (simp add: clause_step_det[of d ?s3] det_Opt del: det.simps)
  moreover have "det d (Opt deleted_file_clause) ?s4 = Some ?s5"
    using v4 by (simp add: clause_step_det[of d ?s4] det_Opt del: det.simps)
  moreover have "det d (Opt index_clause) ?s5 = Some (clause_step d index_clause ?s5)"
    using v5 by (simp add: clause_step_det[of d ?s5] det_Opt del: det.simps)
  ultimately have "det d (seqs [Opt rename_clause, Opt mode_clause, Opt new_file_clause,
                       Opt deleted_file_clause, Opt index_clause]) st1 = Some (clause_step d index_clause ?s5)"
    by (simp del: det.simps(7) add: det_Seq_bind)
  with Some m show ?thesis by (simp add: diff_header_det det_header_split)
qed

lemma diff_header_chain:
  assumes "diff_header d = Some h"
  obtains st1 st2 st3 st4 st5 where
    "det d (seqs mandatory_rx) start = Some st1"
    "det d (Opt rename_clause) st1 = Some st2"
    "det d (Opt mode_clause) st2 = Some st3"
    "det d (Opt new_file_clause) st3 = Some st4"
    "det d (Opt deleted_file_clause) st4 = Some st5"
    "det d (Opt index_clause) st5 = Some h"
proof -
  from assms obtain st1 where 1: "det d (seqs mandatory_rx) start = Some st1"
    and r: "det d (seqs [Opt rename_clause, Opt mode_clause, Opt new_file_clause,
                       Opt deleted_file_clause, Opt index_clause]) st1 = Some h"
    by (auto simp: diff_header_det det_header_split split: option.splits)
  from r obtain st2 st3 st4 st5 where
    "det d (Opt rename_clause) st1 = Some st2"
    "det d (Opt mode_clause) st2 = Some st3"
    "det d (Opt new_file_clause) st3 = Some st4"
    "det d (Opt deleted_file_clause) st4 = Some st5"
    "det d (Opt index_clause) st5 = Some h"
    unfolding seqs.simps by (elim det_SeqE)
  with 1 show ?thesis by (rule that)
qed

lemma det_OptE:
  assumes "det s (Opt a) st = Some st'"
  obtains (matched) "det s a st = Some st'" | (skipped) "det s a st = None" "st' = st"
  using assms by (auto split: option.splits)

lemma drop_Cons_line_end:
  assumes "drop p d = CHR 0x0A # drop p' d" and "p' = p + 1"
  shows "0 < p' \<and> p' \<le> length d \<and> d ! (p' - 1) = CHR 0x0A"
proof -
  from assms(1) have lt: "p < length d" by (cases "p < length d") auto
  then have "drop p d = d ! p # drop (Suc p) d" by (simp add: Cons_nth_drop_Suc)
  with assms(1) have "d ! p = CHR 0x0A" by simp
  with lt assms(2) show ?thesis by simp
qed

lemma det_eol_line_end:
  assumes "det s eol st = Some st'"
  shows "line_end s st'"
proof -
  from det_eol_shape[OF assms]
  consider "drop (pos st) s = CHR 0x0A # drop (pos st') s" "pos st' = pos st + 1"
    | "st' = st" "drop (pos st) s = []"
    by blast
  then show ?thesis
  proof cases
    case 1
    then show ?thesis using drop_Cons_line_end[of "pos st" s "pos st'"] by (simp add: line_end_def)
  next
    case 2
    then show ?thesis by (simp add: line_end_def)
  qed
qed

lemma det_Lit_nl_line_end:
  assumes "det s (Lit [CHR 0x0A]) st = Some st'"
  shows "line_end s st'"
proof -
  from det_Lit_shape[OF assms]
  have "drop (pos st) s = CHR 0x0A # drop (pos st') s" "pos st' = pos st + 1" by simp_all
  then show ?thesis using drop_Cons_line_end[of "pos st" s "pos st'"] by (simp add: line_end_def)
qed

lemma mandatory_line_end: "det d (seqs mandatory_rx) st = Some st' \<Longrightarrow> line_end d st'"
  unfolding mandatory_rx_def seqs.simps by (elim det_SeqE) (rule det_Lit_nl_line_end)

lemma rename_line_end: "det d rename_clause st = Some st' \<Longrightarrow> line_end d st'"
  unfolding rename_clause_def seqs.simps by (elim det_SeqE) (rule det_eol_line_end)

lemma mode_line_end: "det d mode_clause st = Some st' \<Longrightarrow> line_end d st'"
  unfolding mode_clause_def seqs.simps by (elim det_SeqE) (rule det_eol_line_end)

lemma new_file_line_end: "det d new_file_clause st = Some st' \<Longrightarrow> line_end d st'"
  unfolding new_file_clause_def seqs.simps by (elim det_SeqE) (rule det_eol_line_end)

lemma deleted_file_line_end: "det d deleted_file_clause st = Some st' \<Longrightarrow> line_end d st'"
  unfolding deleted_file_clause_def seqs.simps by (elim det_SeqE) (rule det_eol_line_end)

lemma index_line_end: "det d index_clause st = Some st' \<Longrightarrow> line_end d st'"
  unfolding index_clause_def seqs.simps by (elim det_SeqE) (rule det_eol_line_end)

lemmas clause_line_end =
  rename_line_end mode_line_end new_file_line_end deleted_file_line_end index_line_end

lemma opt_clause_line_end:
  assumes "det d (Opt r) st = Some st'" and "line_end d st"
    and "r \<in> {rename_clause, mode_clause, new_file_clause, deleted_file_clause, index_clause}"
  shows "line_end d st'"
  using assms(1)
proof (cases rule: det_OptE)
  case matched
  with assms(3) clause_line_end show ?thesis by auto
next
  case skipped
  with assms(2) show ?thesis by simp
qed

lemma diff_header_line_end:
  assumes "diff_header d = Some h"
  shows "line_end d h"
proof -
  from assms obtain st1 st2 st3 st4 st5 where c:
    "det d (seqs mandatory_rx) start = Some st1"
    "det d (Opt rename_clause) st1 = Some st2"
    "det d (Opt mode_clause) st2 = Some st3"
    "det d (Opt new_file_clause) st3 = Some st4"
    "det d (Opt deleted_file_clause) st4 = Some st5"
    "det d (Opt index_clause) st5 = Some h"
    by (rule diff_header_chain)
  from c(1) have "line_end d st1" by (rule mandatory_line_end)
  with c(2) have "line_end d st2" by (rule opt_clause_line_end) simp
  with c(3) have "line_end d st3" by (rule opt_clause_line_end) simp
  with c(4) have "line_end d st4" by (rule opt_clause_line_end) simp
  with c(5) have "line_end d st5" by (rule opt_clause_line_end) simp
  with c(6) show ?thesis by (rule opt_clause_line_end) simp
qed

lemma det_Lit_drop: "det s (Lit w) st = Some st' \<Longrightarrow> drop (pos st) s = w @ drop (pos st') s"
  by (simp only: det_Lit_shape)

lemma det_Lit_groups: "det s (Lit w) st = Some st' \<Longrightarrow> groups st' = groups st"
  by (simp only: det_Lit_shape)

lemma det_eol_cases:
  assumes "det s eol st = Some st'"
  obtains e where "drop (pos st) s = e @ drop (pos st') s"
    and "e = [CHR 0x0A] \<or> e = [] \<and> drop (pos st') s = []" and "groups st' = groups st"
proof -
  from det_eol_shape[OF assms]
  consider "drop (pos st) s = CHR 0x0A # drop (pos st') s" "groups st' = groups st"
    | "st' = st" "drop (pos st) s = []"
    by blast
  then show ?thesis
  proof cases
    case 1
    then show ?thesis using that[of "[CHR 0x0A]"] by simp
  next
    case 2
    then show ?thesis using that[of "[]"] by simp
  qed
qed

lemma rename_shape:
  assumes "det d rename_clause st = Some st'"
  shows "\<exists>i f t e. i \<noteq> [] \<and> f \<noteq> [] \<and> t \<noteq> []
           \<and> drop (pos st) d = ''similarity index '' @ i @ ''%'' @ CHR 0x0A # ''rename from '' @ f
                @ CHR 0x0A # ''rename to '' @ t @ e @ drop (pos st') d
           \<and> (e = [CHR 0x0A] \<or> e = [] \<and> drop (pos st') d = [])
           \<and> groups st' = (groups st)(G_similarity_index \<mapsto> i, G_rename_from \<mapsto> f, G_rename_to \<mapsto> t)"
proof -
  from assms obtain s1 s2 s3 s4 s5 s6 s7 s8 s9 s10 s11 where
    1: "det d Bol st = Some s1" and
    2: "det d (Lit ''similarity index '') s1 = Some s2" and
    3: "det d (Grp G_similarity_index (Plus digit)) s2 = Some s3" and
    4: "det d (Lit (''%'' @ [CHR 0x0A])) s3 = Some s4" and
    5: "det d Bol s4 = Some s5" and
    6: "det d (Lit ''rename from '') s5 = Some s6" and
    7: "det d (Grp G_rename_from (Plus non_space)) s6 = Some s7" and
    8: "det d (Lit [CHR 0x0A]) s7 = Some s8" and
    9: "det d Bol s8 = Some s9" and
    10: "det d (Lit ''rename to '') s9 = Some s10" and
    11: "det d (Grp G_rename_to (Plus non_space)) s10 = Some s11" and
    12: "det d eol s11 = Some st'"
    unfolding rename_clause_def seqs.simps by (elim det_SeqE)
  from det_Grp_Plus_shape[OF 3] obtain i where i: "i \<noteq> []"
    "drop (pos s2) d = i @ drop (pos s3) d" "groups s3 = (groups s2)(G_similarity_index \<mapsto> i)"
    by blast
  from det_Grp_Plus_shape[OF 7] obtain f where f: "f \<noteq> []"
    "drop (pos s6) d = f @ drop (pos s7) d" "groups s7 = (groups s6)(G_rename_from \<mapsto> f)"
    by blast
  from det_Grp_Plus_shape[OF 11] obtain t where t: "t \<noteq> []"
    "drop (pos s10) d = t @ drop (pos s11) d" "groups s11 = (groups s10)(G_rename_to \<mapsto> t)"
    by blast
  from 12 obtain e where e: "drop (pos s11) d = e @ drop (pos st') d"
    "e = [CHR 0x0A] \<or> e = [] \<and> drop (pos st') d = []" "groups st' = groups s11"
    by (rule det_eol_cases)
  have b: "s1 = st" "s5 = s4" "s9 = s8"
    using det_BolD[OF 1] det_BolD[OF 5] det_BolD[OF 9] by simp_all
  have "drop (pos st) d = ''similarity index '' @ i @ ''%'' @ CHR 0x0A # ''rename from '' @ f
                @ CHR 0x0A # ''rename to '' @ t @ e @ drop (pos st') d"
    using det_Lit_drop[OF 2] det_Lit_drop[OF 4] det_Lit_drop[OF 6] det_Lit_drop[OF 8]
      det_Lit_drop[OF 10] i(2) f(2) t(2) e(1) b by simp
  moreover have "groups st' = (groups st)(G_similarity_index \<mapsto> i, G_rename_from \<mapsto> f, G_rename_to \<mapsto> t)"
    using det_Lit_groups[OF 2] det_Lit_groups[OF 4] det_Lit_groups[OF 6] det_Lit_groups[OF 8]
      det_Lit_groups[OF 10] i(3) f(3) t(3) e(3) b by simp
  ultimately show ?thesis using i(1) f(1) t(1) e(2) by blast
qed

lemma file_mode_shape:
  assumes "det d (seqs [Bol, Lit w, Grp g (Plus dot), eol]) st = Some st'"
  shows "\<exists>m e. m \<noteq> [] \<and> CHR 0x0A \<notin> set m
           \<and> drop (pos st) d = w @ m @ e @ drop (pos st') d
           \<and> (e = [CHR 0x0A] \<or> e = [] \<and> drop (pos st') d = [])
           \<and> groups st' = (groups st)(g \<mapsto> m)
           \<and> (pos st = 0 \<or> d ! (pos st - 1) = CHR 0x0A)"
proof -
  from assms obtain s1 s2 s3 where
    1: "det d Bol st = Some s1" and
    2: "det d (Lit w) s1 = Some s2" and
    3: "det d (Grp g (Plus dot)) s2 = Some s3" and
    4: "det d eol s3 = Some st'"
    unfolding seqs.simps by (elim det_SeqE)
  from det_Grp_Plus_shape[OF 3] obtain m where m: "m \<noteq> []" "\<forall>c \<in> set m. dot c"
    "drop (pos s2) d = m @ drop (pos s3) d" "groups s3 = (groups s2)(g \<mapsto> m)"
    by blast
  from 4 obtain e where e: "drop (pos s3) d = e @ drop (pos st') d"
    "e = [CHR 0x0A] \<or> e = [] \<and> drop (pos st') d = []" "groups st' = groups s3"
    by (rule det_eol_cases)
  from 1 have b: "pos st = 0 \<or> d ! (pos st - 1) = CHR 0x0A" by (auto split: if_splits)
  have s1: "s1 = st" using det_BolD[OF 1] .
  from m(2) have nl: "CHR 0x0A \<notin> set m" by (auto simp: dot_def)
  have "drop (pos st) d = w @ m @ e @ drop (pos st') d"
    using det_Lit_drop[OF 2] m(3) e(1) s1 by simp
  moreover have "groups st' = (groups st)(g \<mapsto> m)"
    using det_Lit_groups[OF 2] m(4) e(3) s1 by simp
  ultimately show ?thesis using m(1) nl e(2) b by blast
qed

subsection \<open>Evaluation and the records of a parse\<close>

lemma diff_header_code [code]: "diff_header s = det s diff_header_rx start"
  by (rule diff_header_det)

lemma parse_eq:
  "parse repo' text =
     (if \<forall>d \<in> set (segments text). diff_header d \<noteq> None
      then Inr (map (\<lambda>d. make_diff repo' d (the (diff_header d))) (segments text))
      else Inl AttributeError)"
  by (simp add: parse_segments parse_loop_eq)

lemma parse_records:
  assumes "parse repo' text = Inr ds"
  shows "length ds = length (segments text)"
    and "i < length ds \<Longrightarrow>
           \<exists>h. diff_header (segments text ! i) = Some h \<and> ds ! i = make_diff repo' (segments text ! i) h"
proof -
  from assms have ok: "\<forall>d \<in> set (segments text). diff_header d \<noteq> None"
    and ds: "ds = map (\<lambda>d. make_diff repo' d (the (diff_header d))) (segments text)"
    by (auto simp: parse_eq split: if_splits)
  from ds show "length ds = length (segments text)" by simp
  assume "i < length ds"
  with ds have i: "i < length (segments text)" by simp
  with ok obtain h where "diff_header (segments text ! i) = Some h" by fastforce
  with ds i show "\<exists>h. diff_header (segments text ! i) = Some h \<and> ds ! i = make_diff repo' (segments text ! i) h"
    by simp
qed

lemma parse_record_of_segment:
  assumes "parse repo' text = Inr ds" and "r \<in> set ds"
  shows "\<exists>d h. d \<in> set (segments text) \<and> diff_header d = Some h \<and> r = make_diff repo' d h"
proof -
  from assms(2) obtain i where i: "i < length ds" "ds ! i = r" by (auto simp: in_set_conv_nth)
  from parse_records[OF assms(1)] i have "i < length (segments text)" 
    "\<exists>h. diff_header (segments text ! i) = Some h \<and> ds ! i = make_diff repo' (segments text ! i) h"
    by auto
  with i show ?thesis by (metis nth_mem)
qed

lemma make_diff_fields:
  "repo (make_diff repo' d h) = repo'"
  "a_path (make_diff repo' d h) = groups h G_a_path"
  "b_path (make_diff repo' d h) = groups h G_b_path"
  "a_commit (make_diff repo' d h) = groups h G_a_commit"
  "b_commit (make_diff repo' d h) = groups h G_b_commit"
  "a_mode (make_diff repo' d h) = py_or (groups h G_old_mode) (groups h G_deleted_file_mode)"
  "b_mode (make_diff repo' d h) =
     py_or (py_or (groups h G_new_mode) (groups h G_new_file_mode)) (groups h G_b_mode)"
  "new_file (make_diff repo' d h) = truthy (groups h G_new_file_mode)"
  "deleted_file (make_diff repo' d h) = truthy (groups h G_deleted_file_mode)"
  "rename_from (make_diff repo' d h) = groups h G_rename_from"
  "rename_to (make_diff repo' d h) = groups h G_rename_to"
  "renamed (make_diff repo' d h) = (groups h G_rename_from \<noteq> groups h G_rename_to)"
  "diff (make_diff repo' d h) = drop (pos h) d"
  by (simp_all add: make_diff_def Diff_init_def Let_def)


lemma path_clause_code [code]: "path_clause d = (det d (seqs mandatory_rx) start \<noteq> None)"
  by (rule path_clause_det)

lemma diff_header_iff_path_clause: "diff_header d \<noteq> None \<longleftrightarrow> path_clause d"
  by (simp add: diff_header_steps path_clause_def split: option.splits)

lemma join_Cons: "join sep (p # ps) = p @ concat (map (\<lambda>q. sep @ q) ps)"
  by (induction ps arbitrary: p) simp_all

lemma text_of_segments:
  "\<exists>pre. CHR 0x0A # text = pre @ concat (map (\<lambda>d. delim @ d) (segments text))"
proof -
  obtain p ps where ps: "split_pieces (CHR 0x0A # text) delim = p # ps"
    using split_pieces_nonempty[of "CHR 0x0A # text" delim] by (auto simp only: neq_Nil_conv)
  then have "segments text = ps" by (simp add: segments_def)
  moreover have "join delim (p # ps) = CHR 0x0A # text"
    using join_split_pieces[of delim "CHR 0x0A # text"] ps by simp
  ultimately have "CHR 0x0A # text = p @ concat (map (\<lambda>d. delim @ d) (segments text))"
    by (simp add: join_Cons)
  then show ?thesis by (rule exI)
qed

lemma segment_no_delim: "d \<in> set (segments text) \<Longrightarrow> \<not> sublist delim d"
proof -
  assume "d \<in> set (segments text)"
  then have "d \<in> set (split_pieces (CHR 0x0A # text) delim)"
    unfolding segments_def by (rule in_set_dropD)
  with delim_not_Nil show ?thesis by (rule split_pieces_no_sep)
qed

lemma diff_header_pos_le:
  assumes "diff_header d = Some h"
  shows "pos h \<le> length d"
proof -
  from assms have "det d diff_header_rx start = Some h" by (simp add: diff_header_det)
  then have "valid d h" using valid_start by (rule det_valid)
  then show ?thesis by (simp add: valid_def)
qed

lemma line_end_not_prefix:
  assumes "line_end d h" and "\<not> sublist delim d"
  shows "\<not> prefix ''diff --git'' (drop (pos h) d)"
proof
  assume p: "prefix ''diff --git'' (drop (pos h) d)"
  then obtain t where t: "drop (pos h) d = ''diff --git'' @ t" by (auto simp: prefix_def)
  with assms(1) have h: "0 < pos h" "pos h \<le> length d" "d ! (pos h - 1) = CHR 0x0A"
    by (auto simp: line_end_def)
  then have "d = take (pos h - 1) d @ d ! (pos h - 1) # drop (Suc (pos h - 1)) d"
    by (intro id_take_nth_drop) simp
  with h t have "d = take (pos h - 1) d @ delim @ t" by (simp add: delim_def)
  then have "sublist delim d" by (metis sublist_appendI)
  with assms(2) show False by simp
qed

lemma start_groups: "groups start g = None"
  by (simp add: start_def)

lemma grps_clauses:
  "grps (seqs mandatory_rx) = {G_a_path, G_b_path}"
  "grps rename_clause = {G_similarity_index, G_rename_from, G_rename_to}"
  "grps mode_clause = {G_old_mode, G_new_mode}"
  "grps new_file_clause = {G_new_file_mode}"
  "grps deleted_file_clause = {G_deleted_file_mode}"
  "grps index_clause = {G_a_commit, G_b_commit, G_b_mode}"
  by (auto simp: mandatory_rx_def rename_clause_def mode_clause_def new_file_clause_def
      deleted_file_clause_def index_clause_def eol_def)

lemma plus_groups_header: "plus_groups diff_header_rx"
  by (simp add: diff_header_rx_def mandatory_rx_def rename_clause_def mode_clause_def
      new_file_clause_def deleted_file_clause_def index_clause_def eol_def)

lemma header_groups_nonempty:
  assumes "diff_header d = Some h"
  shows "groups h g \<noteq> Some []"
proof -
  from assms have "det d diff_header_rx start = Some h" by (simp add: diff_header_det)
  then show ?thesis using plus_groups_header by (rule det_groups_nonempty) (simp add: start_groups)
qed

lemma py_or_present: "x \<noteq> Some [] \<Longrightarrow> py_or x y = (case x of Some m \<Rightarrow> Some m | None \<Rightarrow> y)"
  by (cases x) (simp_all add: py_or_def truthy_def)

lemma truthy_present: "x \<noteq> Some [] \<Longrightarrow> truthy x = (x \<noteq> None)"
  by (cases x) (simp_all add: truthy_def)

lemma opt_frame:
  "det d (Opt r) st = Some st' \<Longrightarrow> g \<notin> grps r \<Longrightarrow> groups st' g = groups st g"
  using det_frame[of d "Opt r" st st' g] by simp

lemma mandatory_frame:
  "det d (seqs mandatory_rx) start = Some st1 \<Longrightarrow> g \<noteq> G_a_path \<Longrightarrow> g \<noteq> G_b_path \<Longrightarrow>
   groups st1 g = None"
  using det_frame[of d "seqs mandatory_rx" start st1 g] by (simp add: grps_clauses start_groups)

lemma take_drop_shape: "drop p d = x \<Longrightarrow> d = take p d @ x"
  by (metis append_take_drop_id)

lemma mandatory_pos: "det d (seqs mandatory_rx) st = Some st1 \<Longrightarrow> 0 < pos st1"
  using mandatory_shape[of d st st1] by auto

lemma line_start_shape:
  assumes "0 < p" and "p = 0 \<or> d ! (p - 1) = CHR 0x0A" and "drop p d = x" and "x \<noteq> []"
  shows "d = take (p - 1) d @ CHR 0x0A # x"
proof -
  from assms(3,4) have "p < length d" by (cases "p < length d") auto
  with assms(1) have "p - 1 < length d" by simp
  then have "d = take (p - 1) d @ d ! (p - 1) # drop (Suc (p - 1)) d" by (rule id_take_nth_drop)
  with assms(1,2,3) show ?thesis by simp
qed

lemma clause_step_skip: "rmatch d r st Some = None \<Longrightarrow> clause_step d r st = st"
  by (simp add: clause_step_def)

lemma clause_step_frame:
  assumes "valid d st"
    and "r \<in> {rename_clause, mode_clause, new_file_clause, deleted_file_clause, index_clause}"
    and "g \<notin> grps r"
  shows "groups (clause_step d r st) g = groups st g"
proof (cases "det d r st")
  case None
  with assms(1,2) show ?thesis by (simp add: clause_step_det)
next
  case (Some st')
  with assms(1,2) have "clause_step d r st = st'" by (simp add: clause_step_det)
  with det_frame[OF Some assms(3)] show ?thesis by simp
qed

lemma path_clause_shape:
  assumes "path_clause d"
  shows "\<exists>a b r. a \<noteq> [] \<and> b \<noteq> [] \<and> (\<forall>c \<in> set a. non_space c) \<and> (\<forall>c \<in> set b. non_space c)
           \<and> d = '' a/'' @ a @ '' b/'' @ b @ CHR 0x0A # r"
proof -
  from assms obtain st1 where "det d (seqs mandatory_rx) start = Some st1"
    by (auto simp: path_clause_det)
  from mandatory_shape[OF this] obtain a b where ab: "a \<noteq> []" "b \<noteq> []"
    "\<forall>c \<in> set a. non_space c" "\<forall>c \<in> set b. non_space c"
    "drop (pos start) d = '' a/'' @ a @ '' b/'' @ b @ CHR 0x0A # drop (pos st1) d"
    by blast
  from ab(5) have "d = '' a/'' @ a @ '' b/'' @ b @ CHR 0x0A # drop (pos st1) d"
    by (simp add: start_def)
  with ab(1-4) show ?thesis by blast
qed

lemma non_space_no_nl: "\<forall>c \<in> set a. non_space c \<Longrightarrow> CHR 0x0A \<notin> set a"
  by (auto simp: non_space_def is_space_def)

lemma non_space_filter: "\<forall>c \<in> set a. non_space c \<Longrightarrow> filter is_space a = []"
  by (auto simp: non_space_def filter_empty_conv)

lemma first_line_append: "CHR 0x0A \<notin> set w \<Longrightarrow> first_line (w @ CHR 0x0A # r) = w"
  by (auto simp: first_line_def takeWhile_tail)

lemma first_line_no_nl: "CHR 0x0A \<notin> set w \<Longrightarrow> first_line w = w"
  by (auto simp: first_line_def)

lemma path_clause_first_line:
  assumes "path_clause d"
  shows "CHR 0x0A \<in> set d \<and> length (filter is_space (first_line d)) = 2"
proof -
  from path_clause_shape[OF assms] obtain a b r where ab:
    "\<forall>c \<in> set a. non_space c" "\<forall>c \<in> set b. non_space c"
    "d = '' a/'' @ a @ '' b/'' @ b @ CHR 0x0A # r"
    by blast
  let ?w = "'' a/'' @ a @ '' b/'' @ b"
  have nl: "CHR 0x0A \<notin> set ?w" using non_space_no_nl[OF ab(1)] non_space_no_nl[OF ab(2)] by simp
  have d: "d = ?w @ CHR 0x0A # r" using ab(3) by simp
  have "first_line d = ?w" by (subst d) (rule first_line_append[OF nl])
  moreover have "length (filter is_space ?w) = 2"
    using non_space_filter[OF ab(1)] non_space_filter[OF ab(2)] by (simp add: is_space_def)
  moreover have "CHR 0x0A \<in> set d" by (subst d) simp
  ultimately show ?thesis by simp
qed

lemma split_pieces_append_no_nl:
  "CHR 0x0A \<notin> set w \<Longrightarrow>
   split_pieces (w @ t) delim = (w @ hd (split_pieces t delim)) # tl (split_pieces t delim)"
proof (induction w)
  case Nil
  then show ?case using split_pieces_nonempty[of t delim] by simp
next
  case (Cons c w)
  then have "\<not> prefix delim (c # w @ t)" by (auto dest: prefix_delim_Cons)
  with Cons show ?case by simp
qed

lemma split_pieces_delim: "split_pieces (delim @ x) delim = [] # split_pieces x delim"
proof -
  have e: "delim @ x = CHR 0x0A # (''diff --git'' @ x)" by (simp add: delim_def)
  show ?thesis
    by (subst e, subst split_pieces.simps(2)) (simp add: delim_def)
qed

lemma segments_first:
  assumes "CHR 0x0A \<notin> set w"
  shows "segments (''diff --git'' @ w @ t) =
           (w @ hd (split_pieces t delim)) # tl (split_pieces t delim)"
proof -
  have "CHR 0x0A # ''diff --git'' @ w @ t = delim @ (w @ t)" by (simp add: delim_def)
  then have "segments (''diff --git'' @ w @ t) = split_pieces (w @ t) delim"
    unfolding segments_def by (simp only: split_pieces_delim) simp
  with assms show ?thesis by (simp add: split_pieces_append_no_nl)
qed

lemma parse_first_segment_fails:
  assumes "segments txt = d # rest" and "\<not> path_clause d"
  shows "parse repo' txt = Inl AttributeError"
proof -
  from assms have "\<not> (\<forall>d \<in> set (segments txt). diff_header d \<noteq> None)"
    using diff_header_iff_path_clause[of d] by auto
  then show ?thesis by (simp only: parse_eq if_False)
qed

section \<open>The claims\<close>

text \<open>
  C6. A text in which the delimiter does not occur (after the sentinel newline is put in
  front) has no file segment, and parse returns the empty list; the empty text is such a
  text. Conversely parse returns the empty list for no other text.
\<close>

theorem parse_no_segment:
  "(occurrences delim (CHR 0x0A # text) = 0 \<longrightarrow> parse repo' text = Inr [])
   \<and> (parse repo' text = Inr [] \<longrightarrow> occurrences delim (CHR 0x0A # text) = 0)
   \<and> parse repo' [] = Inr []"
proof (intro conjI impI)
  assume "occurrences delim (CHR 0x0A # text) = 0"
  then have "segments text = []" using length_segments[of "text"] by simp
  then show "parse repo' text = Inr []" by (simp add: parse_eq)
next
  assume "parse repo' text = Inr []"
  from parse_records(1)[OF this] show "occurrences delim (CHR 0x0A # text) = 0"
    by (simp add: length_segments)
next
  have "segments [] = []" by (simp add: segments_def delim_def)
  then show "parse repo' [] = Inr []" by (simp add: parse_eq)
qed

theorem parse_no_segment_witness:
  "occurrences delim (CHR 0x0A # ''index 1..2'') = 0 \<and> parse () ''index 1..2'' = Inr []"
proof -
  have "occurrences delim (CHR 0x0A # ''index 1..2'') = 0" by (simp add: delim_def)
  with parse_no_segment[of "''index 1..2''" "()"] show ?thesis by blast
qed

text \<open>
  C4. In every record that parse returns, \<open>renamed\<close> is the inequality of
  \<open>rename_from\<close> and \<open>rename_to\<close>; it is false when both are \<open>None\<close>.
\<close>

theorem renamed_is_inequality:
  assumes "parse repo' text = Inr ds" and "r \<in> set ds"
  shows "renamed r = (rename_from r \<noteq> rename_to r)
         \<and> (rename_from r = None \<and> rename_to r = None \<longrightarrow> \<not> renamed r)"
proof -
  from parse_record_of_segment[OF assms] obtain d h where "r = make_diff repo' d h" by blast
  then show ?thesis by (simp add: make_diff_fields)
qed

theorem renamed_is_inequality_witness:
  "parse () ex_rename = Inr [ex_rename_record]
   \<and> ex_rename_record \<in> set [ex_rename_record]
   \<and> renamed ex_rename_record = (rename_from ex_rename_record \<noteq> rename_to ex_rename_record)"
proof -
  have p: "parse () ex_rename = Inr [ex_rename_record]" by code_simp
  have m: "ex_rename_record \<in> set [ex_rename_record]" by simp
  from renamed_is_inequality[OF p m] p m show ?thesis by blast
qed

text \<open>
  C1, as stated, fails on a text whose segment the pattern does not match: the text
  \<open>ex_truncated\<close> has one occurrence of the delimiter and parse raises instead of
  returning one record.
\<close>

theorem one_record_per_segment_counterexample:
  "occurrences delim (CHR 0x0A # ex_truncated) = 1 \<and> parse () ex_truncated = Inl AttributeError"
proof -
  have "occurrences delim (CHR 0x0A # ex_truncated) = 1"
    by (simp add: ex_truncated_def delim_def)
  moreover have "parse () ex_truncated = Inl AttributeError" by code_simp
  ultimately show ?thesis by simp
qed

text \<open>
  C1, amended. When the mandatory path clause matches every segment of the text, parse
  returns as many records as the delimiter has occurrences in the text (with the sentinel
  newline in front), the record at index \<open>i\<close> is made from the segment at index \<open>i\<close>, its
  \<open>diff\<close> is a suffix of that segment, no segment contains the delimiter, and the segments,
  each behind a delimiter, are the text from its first delimiter on.
\<close>

theorem one_record_per_segment:
  assumes "\<forall>d \<in> set (segments text). path_clause d"
  shows "\<exists>ds. parse repo' text = Inr ds
           \<and> length ds = occurrences delim (CHR 0x0A # text)
           \<and> (\<forall>i < length ds. \<exists>h. diff_header (segments text ! i) = Some h
                  \<and> ds ! i = make_diff repo' (segments text ! i) h
                  \<and> suffix (diff (ds ! i)) (segments text ! i)
                  \<and> \<not> sublist delim (segments text ! i))
           \<and> (\<exists>pre. CHR 0x0A # text = pre @ concat (map (\<lambda>d. delim @ d) (segments text)))"
proof -
  from assms have "\<forall>d \<in> set (segments text). diff_header d \<noteq> None"
    using diff_header_iff_path_clause by blast
  then obtain ds where p: "parse repo' text = Inr ds" by (simp add: parse_eq)
  from parse_records(1)[OF p] have len: "length ds = length (segments text)" .
  have "\<forall>i < length ds. \<exists>h. diff_header (segments text ! i) = Some h
                  \<and> ds ! i = make_diff repo' (segments text ! i) h
                  \<and> suffix (diff (ds ! i)) (segments text ! i)
                  \<and> \<not> sublist delim (segments text ! i)"
  proof (intro allI impI)
    fix i assume i: "i < length ds"
    from parse_records(2)[OF p i] obtain h where h: "diff_header (segments text ! i) = Some h"
      "ds ! i = make_diff repo' (segments text ! i) h" by blast
    from i len have "segments text ! i \<in> set (segments text)" by simp
    then have "\<not> sublist delim (segments text ! i)" by (rule segment_no_delim)
    moreover have "suffix (diff (ds ! i)) (segments text ! i)"
      using h(2) by (simp add: make_diff_fields suffix_drop)
    ultimately show "\<exists>h. diff_header (segments text ! i) = Some h
                  \<and> ds ! i = make_diff repo' (segments text ! i) h
                  \<and> suffix (diff (ds ! i)) (segments text ! i)
                  \<and> \<not> sublist delim (segments text ! i)" using h by blast
  qed
  with p len text_of_segments[of "text"] show ?thesis
    by (simp add: length_segments)
qed

theorem one_record_per_segment_witness:
  "segments ex_two =
     ['' a/x.txt b/x.txt'' @ [CHR 0x0A] @ ''index a1b2c3..d4e5f6 100644'' @ [CHR 0x0A] @
        ''--- a/x.txt'' @ [CHR 0x0A] @ ''+++ b/x.txt'',
      '' a/y.txt b/y.txt'' @ [CHR 0x0A] @ ''new file mode 100644'' @ [CHR 0x0A] @
        ''index 0000000..e69de29'' @ [CHR 0x0A]]
   \<and> list_all path_clause (segments ex_two)
   \<and> occurrences delim (CHR 0x0A # ex_two) = 2
   \<and> (\<exists>ds. parse () ex_two = Inr ds \<and> length ds = 2)"
proof -
  have s: "segments ex_two =
     ['' a/x.txt b/x.txt'' @ [CHR 0x0A] @ ''index a1b2c3..d4e5f6 100644'' @ [CHR 0x0A] @
        ''--- a/x.txt'' @ [CHR 0x0A] @ ''+++ b/x.txt'',
      '' a/y.txt b/y.txt'' @ [CHR 0x0A] @ ''new file mode 100644'' @ [CHR 0x0A] @
        ''index 0000000..e69de29'' @ [CHR 0x0A]]"
    by code_simp
  have h: "\<forall>d \<in> set (segments ex_two). path_clause d"
    unfolding s by code_simp
  then have a: "list_all path_clause (segments ex_two)"
    by (simp add: list_all_iff)
  have n: "occurrences delim (CHR 0x0A # ex_two) = 2"
    using length_segments[of ex_two] s by simp
  from one_record_per_segment[OF h, of "()"] n
  have "\<exists>ds. parse () ex_two = Inr ds \<and> length ds = 2" by auto
  with s a n show ?thesis by blast
qed

text \<open>
  C5. When the mandatory path clause fails to match some segment, parse raises (the
  result is the error, not a list); when it matches every segment, parse returns one
  record per segment, whatever follows the path line. A segment fails to match the
  pattern exactly when its path clause fails.
\<close>

theorem malformed_segment_fails:
  "((\<exists>d \<in> set (segments text). \<not> path_clause d) \<longrightarrow> parse repo' text = Inl AttributeError)
   \<and> ((\<forall>d \<in> set (segments text). path_clause d) \<longrightarrow>
        (\<exists>ds. parse repo' text = Inr ds \<and> length ds = length (segments text)))
   \<and> (diff_header d = None \<longleftrightarrow> \<not> path_clause d)"
proof (intro conjI impI)
  assume "\<exists>d \<in> set (segments text). \<not> path_clause d"
  then have "\<not> (\<forall>d \<in> set (segments text). diff_header d \<noteq> None)"
    using diff_header_iff_path_clause by blast
  then show "parse repo' text = Inl AttributeError" by (simp only: parse_eq if_False)
next
  assume "\<forall>d \<in> set (segments text). path_clause d"
  then have "\<forall>d \<in> set (segments text). diff_header d \<noteq> None"
    using diff_header_iff_path_clause by blast
  then show "\<exists>ds. parse repo' text = Inr ds \<and> length ds = length (segments text)"
    by (simp add: parse_eq)
next
  show "diff_header d = None \<longleftrightarrow> \<not> path_clause d"
    using diff_header_iff_path_clause[of d] by blast
qed

theorem malformed_segment_fails_witness:
  "(\<exists>d \<in> set (segments ex_bad_second). \<not> path_clause d)
   \<and> parse () ex_bad_second = Inl AttributeError"
proof -
  have s: "segments ex_bad_second =
     ['' a/x.txt b/x.txt'' @ [CHR 0x0A] @ ''index a1b2c3..d4e5f6 100644'', '' a/y.txt'']"
    by code_simp
  have "\<not> path_clause '' a/y.txt''" by code_simp
  with s have h: "\<exists>d \<in> set (segments ex_bad_second). \<not> path_clause d" by simp
  with malformed_segment_fails[of ex_bad_second "()"] show ?thesis by blast
qed

text \<open>
  C9. The \<open>diff\<close> of a record is its segment from the end of the header match on,
  unchanged: the matched header and the \<open>diff\<close> together are the segment. It does not
  begin with \<^verbatim>\<open>diff --git\<close> and has no \<^verbatim>\<open>diff --git\<close> behind a newline.
\<close>

theorem raw_body_is_rest_of_segment:
  assumes "parse repo' text = Inr ds" and "i < length ds"
  shows "\<exists>h. diff_header (segments text ! i) = Some h
           \<and> pos h \<le> length (segments text ! i)
           \<and> diff (ds ! i) = drop (pos h) (segments text ! i)
           \<and> take (pos h) (segments text ! i) @ diff (ds ! i) = segments text ! i
           \<and> \<not> prefix ''diff --git'' (diff (ds ! i))
           \<and> \<not> sublist (CHR 0x0A # ''diff --git'') (diff (ds ! i))"
proof -
  let ?d = "segments text ! i"
  from parse_records(2)[OF assms] obtain h where h: "diff_header ?d = Some h"
    "ds ! i = make_diff repo' ?d h" by blast
  from parse_records(1)[OF assms(1)] assms(2) have "?d \<in> set (segments text)" by simp
  then have nd: "\<not> sublist delim ?d" by (rule segment_no_delim)
  from h(1) have le: "line_end ?d h" by (rule diff_header_line_end)
  have b: "diff (ds ! i) = drop (pos h) ?d" using h(2) by (simp add: make_diff_fields)
  have 1: "\<not> prefix ''diff --git'' (drop (pos h) ?d)"
    using le nd by (rule line_end_not_prefix)
  have 2: "\<not> sublist delim (drop (pos h) ?d)"
  proof
    assume "sublist delim (drop (pos h) ?d)"
    moreover have "sublist (drop (pos h) ?d) ?d" by (rule sublist_drop)
    ultimately have "sublist delim ?d" by (rule sublist_order.order.trans)
    with nd show False by simp
  qed
  from h(1) b 1 2 diff_header_pos_le[OF h(1)] show ?thesis
    by (auto simp: delim_def)
qed

theorem raw_body_is_rest_of_segment_witness:
  "parse () ex_two = Inr ex_two_records \<and> 0 < length ex_two_records
   \<and> diff (ex_two_records ! 0) = ''--- a/x.txt'' @ [CHR 0x0A] @ ''+++ b/x.txt''
   \<and> \<not> prefix ''diff --git'' (diff (ex_two_records ! 0))"
proof -
  have p: "parse () ex_two = Inr ex_two_records" by code_simp
  have l: "0 < length ex_two_records" by (simp add: ex_two_records_def)
  have d: "diff (ex_two_records ! 0) = ''--- a/x.txt'' @ [CHR 0x0A] @ ''+++ b/x.txt''"
    by (simp add: ex_two_records_def)
  from raw_body_is_rest_of_segment[OF p l] p l d show ?thesis by blast
qed

text \<open>
  C2. For the record of every parsed segment, \<open>a_mode\<close> is the old-mode capture if the
  \<^verbatim>\<open>old mode\<close> line matched, else the capture of the \<^verbatim>\<open>deleted file mode\<close> line;
  \<open>b_mode\<close> is the new-mode capture if present, else the capture of the
  \<^verbatim>\<open>new file mode\<close> line if present, else the mode at the end of the index line. The
  text \<open>ex_index_only\<close>, whose only mode is \<^verbatim>\<open>100644\<close> on the index line, gives one
  record with \<open>b_mode\<close> \<^verbatim>\<open>100644\<close>.
\<close>

theorem mode_resolution:
  "(parse repo' text = Inr ds \<and> i < length ds \<longrightarrow>
      (\<exists>h. diff_header (segments text ! i) = Some h
         \<and> a_mode (ds ! i) =
             (case groups h G_old_mode of Some m \<Rightarrow> Some m
              | None \<Rightarrow> groups h G_deleted_file_mode)
         \<and> b_mode (ds ! i) =
             (case groups h G_new_mode of Some m \<Rightarrow> Some m
              | None \<Rightarrow> (case groups h G_new_file_mode of Some m \<Rightarrow> Some m
                         | None \<Rightarrow> groups h G_b_mode))))
   \<and> (\<exists>r. parse repo' ex_index_only = Inr [r] \<and> a_mode r = None \<and> b_mode r = Some ''100644'')"
proof (intro conjI impI)
  assume a: "parse repo' text = Inr ds \<and> i < length ds"
  then obtain h where h: "diff_header (segments text ! i) = Some h"
    "ds ! i = make_diff repo' (segments text ! i) h"
    using parse_records(2)[of repo' "text" ds i] by blast
  note ne = header_groups_nonempty[OF h(1)]
  have "a_mode (ds ! i) = (case groups h G_old_mode of Some m \<Rightarrow> Some m
              | None \<Rightarrow> groups h G_deleted_file_mode)"
    using h(2) ne[of G_old_mode] by (simp add: make_diff_fields py_or_present)
  moreover have "b_mode (ds ! i) = (case groups h G_new_mode of Some m \<Rightarrow> Some m
              | None \<Rightarrow> (case groups h G_new_file_mode of Some m \<Rightarrow> Some m
                         | None \<Rightarrow> groups h G_b_mode))"
    using h(2) ne[of G_new_mode] ne[of G_new_file_mode]
    by (cases "groups h G_new_mode"; cases "groups h G_new_file_mode")
      (simp_all add: make_diff_fields py_or_def truthy_def)
  ultimately show "\<exists>h. diff_header (segments text ! i) = Some h
         \<and> a_mode (ds ! i) =
             (case groups h G_old_mode of Some m \<Rightarrow> Some m
              | None \<Rightarrow> groups h G_deleted_file_mode)
         \<and> b_mode (ds ! i) =
             (case groups h G_new_mode of Some m \<Rightarrow> Some m
              | None \<Rightarrow> (case groups h G_new_file_mode of Some m \<Rightarrow> Some m
                         | None \<Rightarrow> groups h G_b_mode))"
    using h(1) by blast
next
  let ?d = "'' a/x.txt b/x.txt'' @ [CHR 0x0A] @ ''index a1b2c3..d4e5f6 100644'' @ [CHR 0x0A]"
  have s: "segments ex_index_only = [?d]" by code_simp
  have g: "map_option (\<lambda>h. map (groups h) [G_old_mode, G_deleted_file_mode, G_new_mode,
              G_new_file_mode, G_b_mode]) (diff_header ?d)
           = Some [None, None, None, None, Some ''100644'']"
    by code_simp
  then obtain h where h: "diff_header ?d = Some h" "groups h G_old_mode = None"
    "groups h G_deleted_file_mode = None" "groups h G_new_mode = None"
    "groups h G_new_file_mode = None" "groups h G_b_mode = Some ''100644''"
    by auto
  have "parse repo' ex_index_only = Inr [make_diff repo' ?d h]"
    using s h(1) by (simp add: parse_eq)
  moreover have "a_mode (make_diff repo' ?d h) = None" "b_mode (make_diff repo' ?d h) = Some ''100644''"
    using h by (simp_all add: make_diff_fields py_or_def truthy_def)
  ultimately show "\<exists>r. parse repo' ex_index_only = Inr [r] \<and> a_mode r = None \<and> b_mode r = Some ''100644''"
    by blast
qed

theorem mode_resolution_witness:
  "parse () ex_two = Inr ex_two_records \<and> (1::nat) < length ex_two_records
   \<and> b_mode (ex_two_records ! 1) = Some ''100644''
   \<and> (\<exists>h. diff_header (segments ex_two ! 1) = Some h \<and> groups h G_new_mode = None
          \<and> groups h G_new_file_mode = Some ''100644'')"
proof -
  have p: "parse () ex_two = Inr ex_two_records" by code_simp
  have l: "(1::nat) < length ex_two_records" by (simp add: ex_two_records_def)
  have b: "b_mode (ex_two_records ! 1) = Some ''100644''" by (simp add: ex_two_records_def)
  have g: "map_option (\<lambda>h. map (groups h) [G_new_mode, G_new_file_mode]) (diff_header (segments ex_two ! 1))
           = Some [None, Some ''100644'']"
    by code_simp
  from mode_resolution[of "()" ex_two ex_two_records 1] p l b g show ?thesis by auto
qed

text \<open>
  C7. For the record of every parsed segment: either the three lines of the rename
  clause matched, one right after the other in the segment, and the similarity index,
  \<open>rename_from\<close> and \<open>rename_to\<close> are all captured and not empty; or none of the three
  groups is set and \<open>rename_from\<close> and \<open>rename_to\<close> are both \<open>None\<close>.
\<close>

theorem rename_all_or_none:
  assumes "parse repo' text = Inr ds" and "i < length ds"
  shows "\<exists>h. diff_header (segments text ! i) = Some h
           \<and> rename_from (ds ! i) = groups h G_rename_from
           \<and> rename_to (ds ! i) = groups h G_rename_to
           \<and> ((groups h G_similarity_index = None \<and> rename_from (ds ! i) = None
                 \<and> rename_to (ds ! i) = None)
              \<or> (\<exists>pre n f t rest. n \<noteq> [] \<and> f \<noteq> [] \<and> t \<noteq> []
                   \<and> groups h G_similarity_index = Some n
                   \<and> rename_from (ds ! i) = Some f \<and> rename_to (ds ! i) = Some t
                   \<and> segments text ! i =
                        pre @ ''similarity index '' @ n @ ''%'' @ CHR 0x0A # ''rename from '' @ f
                          @ CHR 0x0A # ''rename to '' @ t @ rest))"
proof -
  let ?d = "segments text ! i"
  from parse_records(2)[OF assms] obtain h where h: "diff_header ?d = Some h"
    "ds ! i = make_diff repo' ?d h" by blast
  from h(1) obtain st1 st2 st3 st4 st5 where c:
    "det ?d (seqs mandatory_rx) start = Some st1"
    "det ?d (Opt rename_clause) st1 = Some st2"
    "det ?d (Opt mode_clause) st2 = Some st3"
    "det ?d (Opt new_file_clause) st3 = Some st4"
    "det ?d (Opt deleted_file_clause) st4 = Some st5"
    "det ?d (Opt index_clause) st5 = Some h"
    by (rule diff_header_chain)
  have keep: "groups h g = groups st2 g"
    if "g = G_similarity_index \<or> g = G_rename_from \<or> g = G_rename_to" for g
  proof -
    from that have "groups st3 g = groups st2 g"
      by (intro opt_frame[OF c(3)]) (auto simp: grps_clauses)
    moreover from that have "groups st4 g = groups st3 g"
      by (intro opt_frame[OF c(4)]) (auto simp: grps_clauses)
    moreover from that have "groups st5 g = groups st4 g"
      by (intro opt_frame[OF c(5)]) (auto simp: grps_clauses)
    moreover from that have "groups h g = groups st5 g"
      by (intro opt_frame[OF c(6)]) (auto simp: grps_clauses)
    ultimately show ?thesis by simp
  qed
  have r: "rename_from (ds ! i) = groups h G_rename_from" "rename_to (ds ! i) = groups h G_rename_to"
    using h(2) by (simp_all add: make_diff_fields)
  have "(groups h G_similarity_index = None \<and> rename_from (ds ! i) = None
                 \<and> rename_to (ds ! i) = None)
              \<or> (\<exists>pre n f t rest. n \<noteq> [] \<and> f \<noteq> [] \<and> t \<noteq> []
                   \<and> groups h G_similarity_index = Some n
                   \<and> rename_from (ds ! i) = Some f \<and> rename_to (ds ! i) = Some t
                   \<and> segments text ! i =
                        pre @ ''similarity index '' @ n @ ''%'' @ CHR 0x0A # ''rename from '' @ f
                          @ CHR 0x0A # ''rename to '' @ t @ rest)"
    using c(2)
  proof (cases rule: det_OptE)
    case skipped
    have "groups st1 G_similarity_index = None" "groups st1 G_rename_from = None"
      "groups st1 G_rename_to = None"
      by (simp_all add: mandatory_frame[OF c(1)])
    with skipped(2) keep have "groups h G_similarity_index = None" "groups h G_rename_from = None"
      "groups h G_rename_to = None" by simp_all
    with r show ?thesis by simp
  next
    case matched
    from rename_shape[OF matched] obtain n f t e where s: "n \<noteq> []" "f \<noteq> []" "t \<noteq> []"
      "drop (pos st1) ?d = ''similarity index '' @ n @ ''%'' @ CHR 0x0A # ''rename from '' @ f
                @ CHR 0x0A # ''rename to '' @ t @ e @ drop (pos st2) ?d"
      "groups st2 = (groups st1)(G_similarity_index \<mapsto> n, G_rename_from \<mapsto> f, G_rename_to \<mapsto> t)"
      by blast
    from s(5) keep have g: "groups h G_similarity_index = Some n" "groups h G_rename_from = Some f"
      "groups h G_rename_to = Some t" by simp_all
    from g r have r': "rename_from (ds ! i) = Some f" "rename_to (ds ! i) = Some t" by simp_all
    have eq: "?d = take (pos st1) ?d @ ''similarity index '' @ n @ ''%'' @ CHR 0x0A # ''rename from '' @ f
                @ CHR 0x0A # ''rename to '' @ t @ (e @ drop (pos st2) ?d)"
      using take_drop_shape[OF s(4)] by simp
    show ?thesis
      by (rule disjI2, intro exI[of _ "take (pos st1) ?d"] exI[of _ n] exI[of _ f] exI[of _ t]
          exI[of _ "e @ drop (pos st2) ?d"] conjI s(1-3) g(1) r' eq)
  qed
  with h(1) r show ?thesis by (intro exI[of _ h] conjI)
qed

theorem rename_all_or_none_witness:
  "parse () ex_rename = Inr [ex_rename_record] \<and> (0::nat) < length [ex_rename_record]
   \<and> rename_from ([ex_rename_record] ! 0) = Some ''old.txt''
   \<and> (\<exists>h. diff_header (segments ex_rename ! 0) = Some h \<and> groups h G_similarity_index \<noteq> None)"
proof -
  have p: "parse () ex_rename = Inr [ex_rename_record]" by code_simp
  have l: "(0::nat) < length [ex_rename_record]" by simp
  have f: "rename_from ([ex_rename_record] ! 0) = Some ''old.txt''"
    by (simp add: ex_rename_record_def)
  from rename_all_or_none[OF p l] p l f show ?thesis by auto
qed

text \<open>
  C3, as stated, fails: the pattern matches a \<^verbatim>\<open>new file mode\<close> line followed by a
  \<^verbatim>\<open>deleted file mode\<close> line, and the record of \<open>ex_new_and_deleted\<close> has both flags
  set.
\<close>

theorem new_and_deleted_counterexample:
  "parse () ex_new_and_deleted = Inr [ex_new_and_deleted_record]
   \<and> new_file ex_new_and_deleted_record \<and> deleted_file ex_new_and_deleted_record"
proof -
  have "parse () ex_new_and_deleted = Inr [ex_new_and_deleted_record]" by code_simp
  then show ?thesis by (simp add: ex_new_and_deleted_record_def)
qed

text \<open>
  C3, amended. In the record of every parsed segment \<open>new_file\<close> says whether the
  \<^verbatim>\<open>new file mode\<close> clause matched and \<open>deleted_file\<close> whether the
  \<^verbatim>\<open>deleted file mode\<close> clause matched; both are true only when the segment has a
  \<^verbatim>\<open>new file mode\<close> line with a \<^verbatim>\<open>deleted file mode\<close> line right after it.
\<close>

theorem new_and_deleted_only_adjacent:
  assumes "parse repo' text = Inr ds" and "i < length ds"
  shows "\<exists>h. diff_header (segments text ! i) = Some h
           \<and> new_file (ds ! i) = (groups h G_new_file_mode \<noteq> None)
           \<and> deleted_file (ds ! i) = (groups h G_deleted_file_mode \<noteq> None)
           \<and> (new_file (ds ! i) \<and> deleted_file (ds ! i) \<longrightarrow>
                (\<exists>pre m1 m2 rest. m1 \<noteq> [] \<and> m2 \<noteq> [] \<and> CHR 0x0A \<notin> set m1 \<and> CHR 0x0A \<notin> set m2
                   \<and> segments text ! i =
                        pre @ CHR 0x0A # ''new file mode '' @ m1
                          @ CHR 0x0A # ''deleted file mode '' @ m2 @ rest))"
proof -
  let ?d = "segments text ! i"
  from parse_records(2)[OF assms] obtain h where h: "diff_header ?d = Some h"
    "ds ! i = make_diff repo' ?d h" by blast
  from h(1) obtain st1 st2 st3 st4 st5 where c:
    "det ?d (seqs mandatory_rx) start = Some st1"
    "det ?d (Opt rename_clause) st1 = Some st2"
    "det ?d (Opt mode_clause) st2 = Some st3"
    "det ?d (Opt new_file_clause) st3 = Some st4"
    "det ?d (Opt deleted_file_clause) st4 = Some st5"
    "det ?d (Opt index_clause) st5 = Some h"
    by (rule diff_header_chain)
  note ne = header_groups_nonempty[OF h(1)]
  have nf: "new_file (ds ! i) = (groups h G_new_file_mode \<noteq> None)"
    using h(2) ne[of G_new_file_mode] by (simp add: make_diff_fields truthy_present)
  have df: "deleted_file (ds ! i) = (groups h G_deleted_file_mode \<noteq> None)"
    using h(2) ne[of G_deleted_file_mode] by (simp add: make_diff_fields truthy_present)
  have n3: "groups st3 G_new_file_mode = None"
  proof -
    have "groups st3 G_new_file_mode = groups st2 G_new_file_mode"
      by (intro opt_frame[OF c(3)]) (simp add: grps_clauses)
    also have "\<dots> = groups st1 G_new_file_mode"
      by (intro opt_frame[OF c(2)]) (simp add: grps_clauses)
    also have "\<dots> = None" by (simp add: mandatory_frame[OF c(1)])
    finally show ?thesis .
  qed
  have n4: "groups h G_new_file_mode = groups st4 G_new_file_mode"
  proof -
    have "groups h G_new_file_mode = groups st5 G_new_file_mode"
      by (intro opt_frame[OF c(6)]) (simp add: grps_clauses)
    also have "\<dots> = groups st4 G_new_file_mode"
      by (intro opt_frame[OF c(5)]) (simp add: grps_clauses)
    finally show ?thesis .
  qed
  have d4: "groups st4 G_deleted_file_mode = None"
  proof -
    have "groups st4 G_deleted_file_mode = groups st3 G_deleted_file_mode"
      by (intro opt_frame[OF c(4)]) (simp add: grps_clauses)
    also have "\<dots> = groups st2 G_deleted_file_mode"
      by (intro opt_frame[OF c(3)]) (simp add: grps_clauses)
    also have "\<dots> = groups st1 G_deleted_file_mode"
      by (intro opt_frame[OF c(2)]) (simp add: grps_clauses)
    also have "\<dots> = None" by (simp add: mandatory_frame[OF c(1)])
    finally show ?thesis .
  qed
  have d5: "groups h G_deleted_file_mode = groups st5 G_deleted_file_mode"
    by (intro opt_frame[OF c(6)]) (simp add: grps_clauses)
  have both: "\<exists>pre m1 m2 rest. m1 \<noteq> [] \<and> m2 \<noteq> [] \<and> CHR 0x0A \<notin> set m1 \<and> CHR 0x0A \<notin> set m2
                   \<and> ?d = pre @ CHR 0x0A # ''new file mode '' @ m1
                          @ CHR 0x0A # ''deleted file mode '' @ m2 @ rest"
    if t: "new_file (ds ! i)" "deleted_file (ds ! i)"
  proof -
    from t nf n4 have g4: "groups st4 G_new_file_mode \<noteq> None" by simp
    from t df d5 have g5: "groups st5 G_deleted_file_mode \<noteq> None" by simp
    from c(4) have m4: "det ?d new_file_clause st3 = Some st4"
    proof (cases rule: det_OptE)
      case skipped
      with n3 g4 show ?thesis by simp
    qed
    from c(5) have m5: "det ?d deleted_file_clause st4 = Some st5"
    proof (cases rule: det_OptE)
      case skipped
      with d4 g5 show ?thesis by simp
    qed
    from file_mode_shape[OF m4[unfolded new_file_clause_def]] obtain m1 e1 where
      s1: "m1 \<noteq> []" "CHR 0x0A \<notin> set m1"
        "drop (pos st3) ?d = ''new file mode '' @ m1 @ e1 @ drop (pos st4) ?d"
        "e1 = [CHR 0x0A] \<or> e1 = [] \<and> drop (pos st4) ?d = []"
        "pos st3 = 0 \<or> ?d ! (pos st3 - 1) = CHR 0x0A"
      by blast
    from file_mode_shape[OF m5[unfolded deleted_file_clause_def]] obtain m2 e2 where
      s2: "m2 \<noteq> []" "CHR 0x0A \<notin> set m2"
        "drop (pos st4) ?d = ''deleted file mode '' @ m2 @ e2 @ drop (pos st5) ?d"
      by blast
    from s2(3) have "drop (pos st4) ?d \<noteq> []" by simp
    with s1(4) have e1: "e1 = [CHR 0x0A]" by simp
    have p3: "0 < pos st3"
      using mandatory_pos[OF c(1)] det_pos_mono[OF c(2)] det_pos_mono[OF c(3)] by simp
    have x: "drop (pos st3) ?d = ''new file mode '' @ m1 @ CHR 0x0A # ''deleted file mode '' @ m2
               @ (e2 @ drop (pos st5) ?d)"
      using s1(3) s2(3) e1 by simp
    have eq: "?d = take (pos st3 - 1) ?d @ CHR 0x0A # ''new file mode '' @ m1
               @ CHR 0x0A # ''deleted file mode '' @ m2 @ (e2 @ drop (pos st5) ?d)"
      using line_start_shape[OF p3 s1(5) x] by simp
    show ?thesis
      by (intro exI[of _ "take (pos st3 - 1) ?d"] exI[of _ m1] exI[of _ m2]
          exI[of _ "e2 @ drop (pos st5) ?d"] conjI s1(1,2) s2(1,2) eq)
  qed
  show ?thesis
    by (intro exI[of _ h] conjI h(1) nf df impI both) simp_all
qed

theorem new_and_deleted_only_adjacent_witness:
  "parse () ex_new_and_deleted = Inr [ex_new_and_deleted_record]
   \<and> (0::nat) < length [ex_new_and_deleted_record]
   \<and> new_file ([ex_new_and_deleted_record] ! 0) \<and> deleted_file ([ex_new_and_deleted_record] ! 0)
   \<and> (\<exists>h. diff_header (segments ex_new_and_deleted ! 0) = Some h
          \<and> groups h G_new_file_mode \<noteq> None \<and> groups h G_deleted_file_mode \<noteq> None)"
proof -
  have p: "parse () ex_new_and_deleted = Inr [ex_new_and_deleted_record]" by code_simp
  have l: "(0::nat) < length [ex_new_and_deleted_record]" by simp
  have f: "new_file ([ex_new_and_deleted_record] ! 0)" "deleted_file ([ex_new_and_deleted_record] ! 0)"
    by (simp_all add: ex_new_and_deleted_record_def)
  from new_and_deleted_only_adjacent[OF p l] p l f show ?thesis by auto
qed

text \<open>
  C8. When the mandatory path clause matches a segment, the pattern matches it: the
  header is the state after the path clause, taken through the five optional clauses in
  their order, where a clause that does not match at the place the clauses before it
  have reached leaves the state as it is. The groups of such a clause are \<open>None\<close> in the
  header.
\<close>

theorem optional_clause_absent_not_error:
  assumes "path_clause d"
  shows "\<exists>st1. rmatch d (seqs mandatory_rx) start Some = Some st1
           \<and> (let s2 = clause_step d rename_clause st1;
                   s3 = clause_step d mode_clause s2;
                   s4 = clause_step d new_file_clause s3;
                   s5 = clause_step d deleted_file_clause s4;
                   h = clause_step d index_clause s5
               in diff_header d = Some h
                  \<and> (rmatch d rename_clause st1 Some = None \<longrightarrow>
                       groups h G_similarity_index = None \<and> groups h G_rename_from = None
                       \<and> groups h G_rename_to = None)
                  \<and> (rmatch d mode_clause s2 Some = None \<longrightarrow>
                       groups h G_old_mode = None \<and> groups h G_new_mode = None)
                  \<and> (rmatch d new_file_clause s3 Some = None \<longrightarrow>
                       groups h G_new_file_mode = None)
                  \<and> (rmatch d deleted_file_clause s4 Some = None \<longrightarrow>
                       groups h G_deleted_file_mode = None)
                  \<and> (rmatch d index_clause s5 Some = None \<longrightarrow>
                       groups h G_a_commit = None \<and> groups h G_b_commit = None
                       \<and> groups h G_b_mode = None))"
proof -
  from assms obtain st1 where m: "rmatch d (seqs mandatory_rx) start Some = Some st1"
    by (auto simp: path_clause_def)
  then have dm: "det d (seqs mandatory_rx) start = Some st1"
    using agree_mandatory[of d] valid_start[of d]
    by (cases "det d (seqs mandatory_rx) start") (simp_all add: agree_def)
  define s2 where "s2 = clause_step d rename_clause st1"
  define s3 where "s3 = clause_step d mode_clause s2"
  define s4 where "s4 = clause_step d new_file_clause s3"
  define s5 where "s5 = clause_step d deleted_file_clause s4"
  define h where "h = clause_step d index_clause s5"
  have v1: "valid d st1" using dm valid_start by (rule det_valid)
  have v2: "valid d s2" unfolding s2_def using v1 by (rule valid_clause_step_rmatch) simp
  have v3: "valid d s3" unfolding s3_def using v2 by (rule valid_clause_step_rmatch) simp
  have v4: "valid d s4" unfolding s4_def using v3 by (rule valid_clause_step_rmatch) simp
  have v5: "valid d s5" unfolding s5_def using v4 by (rule valid_clause_step_rmatch) simp
  have f2: "groups s2 g = groups st1 g" if "g \<notin> grps rename_clause" for g
    unfolding s2_def using v1 _ that by (rule clause_step_frame) simp
  have f3: "groups s3 g = groups s2 g" if "g \<notin> grps mode_clause" for g
    unfolding s3_def using v2 _ that by (rule clause_step_frame) simp
  have f4: "groups s4 g = groups s3 g" if "g \<notin> grps new_file_clause" for g
    unfolding s4_def using v3 _ that by (rule clause_step_frame) simp
  have f5: "groups s5 g = groups s4 g" if "g \<notin> grps deleted_file_clause" for g
    unfolding s5_def using v4 _ that by (rule clause_step_frame) simp
  have f6: "groups h g = groups s5 g" if "g \<notin> grps index_clause" for g
    unfolding h_def using v5 _ that by (rule clause_step_frame) simp
  have f1: "groups st1 g = None" if "g \<noteq> G_a_path" "g \<noteq> G_b_path" for g
    using mandatory_frame[OF dm that] .
  have hd: "diff_header d = Some h"
    by (simp add: diff_header_steps m h_def s5_def s4_def s3_def s2_def)
  have c1: "groups h G_similarity_index = None \<and> groups h G_rename_from = None
            \<and> groups h G_rename_to = None"
    if "rmatch d rename_clause st1 Some = None"
  proof -
    from that have "s2 = st1" unfolding s2_def by (rule clause_step_skip)
    then show ?thesis by (simp add: f6 f5 f4 f3 f1 grps_clauses)
  qed
  have c2: "groups h G_old_mode = None \<and> groups h G_new_mode = None"
    if "rmatch d mode_clause s2 Some = None"
  proof -
    from that have "s3 = s2" unfolding s3_def by (rule clause_step_skip)
    then show ?thesis by (simp add: f6 f5 f4 f2 f1 grps_clauses)
  qed
  have c3: "groups h G_new_file_mode = None"
    if "rmatch d new_file_clause s3 Some = None"
  proof -
    from that have "s4 = s3" unfolding s4_def by (rule clause_step_skip)
    then show ?thesis by (simp add: f6 f5 f3 f2 f1 grps_clauses)
  qed
  have c4: "groups h G_deleted_file_mode = None"
    if "rmatch d deleted_file_clause s4 Some = None"
  proof -
    from that have "s5 = s4" unfolding s5_def by (rule clause_step_skip)
    then show ?thesis by (simp add: f6 f4 f3 f2 f1 grps_clauses)
  qed
  have c5: "groups h G_a_commit = None \<and> groups h G_b_commit = None \<and> groups h G_b_mode = None"
    if "rmatch d index_clause s5 Some = None"
  proof -
    from that have "h = s5" unfolding h_def by (rule clause_step_skip)
    then show ?thesis by (simp add: f5 f4 f3 f2 f1 grps_clauses)
  qed
  show ?thesis
    using m hd c1 c2 c3 c4 c5
    unfolding Let_def h_def s5_def s4_def s3_def s2_def
    by (intro exI[of _ st1] conjI impI) blast+
qed

theorem optional_clause_absent_not_error_witness:
  "path_clause ex_misspelt
   \<and> map_option pos (diff_header ex_misspelt) = Some 17"
proof -
  have p: "path_clause ex_misspelt" by code_simp
  have e: "map_option pos (diff_header ex_misspelt) = Some 17" by code_simp
  from optional_clause_absent_not_error[OF p] p e show ?thesis by blast
qed

text \<open>
  C10. The path clause asks for two paths without white space and for a newline behind
  the second: a text that begins with \<^verbatim>\<open>diff --git a/p b/q\<close>, with no newline in \<open>p\<close> and
  \<open>q\<close>, makes parse raise when \<open>p\<close> or \<open>q\<close> has a white-space character, whatever
  follows the line, and also when the text ends behind \<open>q\<close>, as
  \<^verbatim>\<open>diff --git a/x b/y\<close> does.
\<close>

theorem path_clause_needs_clean_paths:
  "(CHR 0x0A \<notin> set p \<and> CHR 0x0A \<notin> set q \<and> (\<exists>c \<in> set (p @ q). is_space c) \<longrightarrow>
      parse repo' (''diff --git a/'' @ p @ '' b/'' @ q @ CHR 0x0A # rest) = Inl AttributeError)
   \<and> (CHR 0x0A \<notin> set p \<and> CHR 0x0A \<notin> set q \<longrightarrow>
      parse repo' (''diff --git a/'' @ p @ '' b/'' @ q) = Inl AttributeError)
   \<and> parse repo' ''diff --git a/x b/y'' = Inl AttributeError"
proof -
  have no_newline: "parse repo' (''diff --git a/'' @ p' @ '' b/'' @ q') = Inl AttributeError"
    if n: "CHR 0x0A \<notin> set p'" "CHR 0x0A \<notin> set q'" for p' q'
  proof -
    let ?w = "'' a/'' @ p' @ '' b/'' @ q'"
    from n have w: "CHR 0x0A \<notin> set ?w" by simp
    have "segments (''diff --git'' @ ?w @ []) = (?w @ hd (split_pieces [] delim)) # tl (split_pieces [] delim)"
      using w by (rule segments_first)
    then have s: "segments (''diff --git a/'' @ p' @ '' b/'' @ q') = [?w]" by simp
    have "\<not> path_clause ?w" using path_clause_first_line[of ?w] w by blast
    with s show ?thesis by (rule parse_first_segment_fails)
  qed
  have spaced: "parse repo' (''diff --git a/'' @ p @ '' b/'' @ q @ CHR 0x0A # rest) = Inl AttributeError"
    if n: "CHR 0x0A \<notin> set p" "CHR 0x0A \<notin> set q" and sp: "\<exists>c \<in> set (p @ q). is_space c"
  proof -
    let ?w = "'' a/'' @ p @ '' b/'' @ q"
    let ?x = "hd (split_pieces (CHR 0x0A # rest) delim)"
    from n have w: "CHR 0x0A \<notin> set ?w" by simp
    have "segments (''diff --git'' @ ?w @ CHR 0x0A # rest)
            = (?w @ ?x) # tl (split_pieces (CHR 0x0A # rest) delim)"
      using w by (rule segments_first)
    then have s: "segments (''diff --git a/'' @ p @ '' b/'' @ q @ CHR 0x0A # rest)
            = (?w @ ?x) # tl (split_pieces (CHR 0x0A # rest) delim)" by simp
    have "prefix ?x (CHR 0x0A # rest)" by (rule hd_split_pieces_prefix)
    then have x: "?x = [] \<or> (\<exists>r. ?x = CHR 0x0A # r)" by (cases ?x) auto
    have fl: "first_line (?w @ ?x) = ?w"
    proof (cases "?x = []")
      case True
      then show ?thesis using first_line_no_nl[OF w] by simp
    next
      case False
      with x obtain r where "?x = CHR 0x0A # r" by blast
      then show ?thesis using first_line_append[OF w, of r] by simp
    qed
    from sp have "filter is_space (p @ q) \<noteq> []" by (auto simp: filter_empty_conv)
    then have "0 < length (filter is_space p) + length (filter is_space q)" by auto
    then have "length (filter is_space ?w) \<noteq> 2" by (simp add: is_space_def)
    with fl have "\<not> path_clause (?w @ ?x)" using path_clause_first_line[of "?w @ ?x"] by auto
    with s show ?thesis by (rule parse_first_segment_fails)
  qed
  have "parse repo' (''diff --git a/'' @ ''x'' @ '' b/'' @ ''y'') = Inl AttributeError"
    by (rule no_newline) simp_all
  then have "parse repo' ''diff --git a/x b/y'' = Inl AttributeError" by simp
  with no_newline[of p q] spaced show ?thesis by blast
qed

theorem path_clause_needs_clean_paths_witness:
  "CHR 0x0A \<notin> set ''my file'' \<and> CHR 0x0A \<notin> set ''x'' \<and> (\<exists>c \<in> set (''my file'' @ ''x''). is_space c)
   \<and> parse () (''diff --git a/my file b/x'' @ [CHR 0x0A]) = Inl AttributeError"
proof -
  have h: "CHR 0x0A \<notin> set ''my file'' \<and> CHR 0x0A \<notin> set ''x''
           \<and> (\<exists>c \<in> set (''my file'' @ ''x''). is_space c)"
    by (simp add: is_space_def)
  from path_clause_needs_clean_paths[of "''my file''" "''x''" "()" "[]"] h
  have "parse () (''diff --git a/'' @ ''my file'' @ '' b/'' @ ''x'' @ [CHR 0x0A]) = Inl AttributeError"
    by blast
  with h show ?thesis by simp
qed

end
